theory Spec2Isabelle
  imports Main "HOL-Library.Word"
begin

section \<open>Memory model\<close>

text \<open>
  The container of \<^verbatim>\<open>src/src/main.cpp\<close> is a chain of nodes obtained from \<^verbatim>\<open>new\<close>,
  anchored in a sentinel node \<^verbatim>\<open>head_\<close> that is a member of the list object itself.
  Several list objects live side by side (\<^verbatim>\<open>swap\<close>, copy construction and assignment take
  two of them, possibly the same one), so the model keeps an explicit store: the list
  objects by their location, and the heap nodes by their address.

  A \<^verbatim>\<open>Node*\<close> is the null pointer, the address of the sentinel of a list object, or the
  address of a heap node. An iterator (\<^verbatim>\<open>Iterator\<close> or \<^verbatim>\<open>ConstIterator\<close>) is its member
  \<^verbatim>\<open>node_\<close>, a \<^verbatim>\<open>Node*\<close>: two iterators are equal when these pointers are. \<^verbatim>\<open>size_t\<close> is a 64-bit word. The member names \<^verbatim>\<open>head_\<close> and
  \<^verbatim>\<open>size_\<close> are written \<open>m_head\<close> and \<open>m_size\<close>, the member \<^verbatim>\<open>value\<close> of a node is
  written \<open>node_value\<close>.
\<close>

type_synonym addr = "64 word"
type_synonym lref = nat

datatype node_ptr = Null | Sentinel lref | Dyn addr

record 'a Node =
  node_value :: 'a
  next_node :: node_ptr

record 'a SingleLinkedList =
  m_head :: "'a Node"
  m_size :: "64 word"

record 'a state =
  objs :: "lref \<Rightarrow> 'a SingleLinkedList option"
  heap :: "addr \<Rightarrow> 'a Node option"

text \<open>
  An operation ends normally, or throws \<^verbatim>\<open>std::bad_alloc\<close> out of \<^verbatim>\<open>new\<close> (the store as
  the unwinding leaves it is kept, since the caller may catch the exception and go on),
  or has undefined behaviour: it dereferences a null or dangling pointer, trips an
  \<^verbatim>\<open>assert\<close>, or deletes what is not a live heap node.
\<close>

datatype 'a fault = BadAlloc "'a state" | Undefined

text \<open>
  \<^verbatim>\<open>operator new\<close> is a parameter of the model: given the heap it returns the address of
  the new node, or nothing when the allocation fails.
\<close>

type_synonym 'a allocator = "(addr \<Rightarrow> 'a Node option) \<Rightarrow> addr option"

text \<open>
  The buffer of the \<^verbatim>\<open>std::vector\<close> that the copy constructor fills is storage outside the
  node heap. Its allocations are a second parameter: given the node heap and the number
  of elements the vector holds, whether \<^verbatim>\<open>push_back\<close> obtains the storage it needs (true
  also when the capacity suffices); when it does not, \<^verbatim>\<open>push_back\<close> throws
  \<^verbatim>\<open>std::bad_alloc\<close>. Copying a value of the element type is taken not to throw.
\<close>

type_synonym 'a vec_allocator = "(addr \<Rightarrow> 'a Node option) \<Rightarrow> nat \<Rightarrow> bool"

subsection \<open>Reading and writing through pointers\<close>

definition node_at :: "'a state \<Rightarrow> node_ptr \<Rightarrow> 'a Node option" where
  "node_at st p =
     (case p of
        Null \<Rightarrow> None
      | Sentinel l \<Rightarrow> (case objs st l of None \<Rightarrow> None | Some L \<Rightarrow> Some (m_head L))
      | Dyn a \<Rightarrow> heap st a)"

text \<open>\<^verbatim>\<open>p->next_node = q\<close>\<close>

definition set_next :: "node_ptr \<Rightarrow> node_ptr \<Rightarrow> 'a state \<Rightarrow> 'a state option" where
  "set_next p q st =
     (case p of
        Null \<Rightarrow> None
      | Sentinel l \<Rightarrow>
          (case objs st l of
             None \<Rightarrow> None
           | Some L \<Rightarrow>
               Some (st\<lparr>objs := (objs st)(l \<mapsto> L\<lparr>m_head := (m_head L)\<lparr>next_node := q\<rparr>\<rparr>)\<rparr>))
      | Dyn a \<Rightarrow>
          (case heap st a of
             None \<Rightarrow> None
           | Some n \<Rightarrow> Some (st\<lparr>heap := (heap st)(a \<mapsto> n\<lparr>next_node := q\<rparr>)\<rparr>)))"

text \<open>\<^verbatim>\<open>delete p\<close>: nothing for the null pointer, undefined for anything but a live heap node.\<close>

definition delete_node :: "node_ptr \<Rightarrow> 'a state \<Rightarrow> 'a state option" where
  "delete_node p st =
     (case p of
        Null \<Rightarrow> Some st
      | Sentinel l \<Rightarrow> None
      | Dyn a \<Rightarrow>
          (case heap st a of
             None \<Rightarrow> None
           | Some n \<Rightarrow> Some (st\<lparr>heap := (heap st)(a := None)\<rparr>)))"

definition get_size :: "lref \<Rightarrow> 'a state \<Rightarrow> 64 word option" where
  "get_size this st = (case objs st this of None \<Rightarrow> None | Some L \<Rightarrow> Some (m_size L))"

definition set_size :: "lref \<Rightarrow> 64 word \<Rightarrow> 'a state \<Rightarrow> 'a state option" where
  "set_size this n st =
     (case objs st this of
        None \<Rightarrow> None
      | Some L \<Rightarrow> Some (st\<lparr>objs := (objs st)(this \<mapsto> L\<lparr>m_size := n\<rparr>)\<rparr>))"

section \<open>The operations of \<^verbatim>\<open>SingleLinkedList\<close>\<close>

text \<open>
  The default member initialisers \<^verbatim>\<open>Node head_{}\<close> and \<^verbatim>\<open>size_t size_ = 0\<close>, which every
  constructor runs first; \<open>dflt\<close> is the value-initialised \<^verbatim>\<open>Type{}\<close>. The defaulted
  constructor \<^verbatim>\<open>SingleLinkedList()\<close> does nothing else.
\<close>

definition member_init :: "'a \<Rightarrow> lref \<Rightarrow> 'a state \<Rightarrow> 'a state" where
  "member_init dflt this st =
     st\<lparr>objs := (objs st)(this \<mapsto>
          \<lparr>m_head = \<lparr>node_value = dflt, next_node = Null\<rparr>, m_size = 0\<rparr>)\<rparr>"

definition begin_it :: "lref \<Rightarrow> 'a state \<Rightarrow> node_ptr option" where
  "begin_it this st =
     (case objs st this of None \<Rightarrow> None | Some L \<Rightarrow> Some (next_node (m_head L)))"

definition before_begin :: "lref \<Rightarrow> node_ptr" where
  "before_begin this = Sentinel this"

definition end_it :: node_ptr where
  "end_it = Null"

definition GetSize :: "lref \<Rightarrow> 'a state \<Rightarrow> 64 word option" where
  "GetSize this st = get_size this st"

definition IsEmpty :: "lref \<Rightarrow> 'a state \<Rightarrow> bool option" where
  "IsEmpty this st =
     (case objs st this of None \<Rightarrow> None | Some L \<Rightarrow> Some (next_node (m_head L) = Null))"

text \<open>
  \<^verbatim>\<open>head_.next_node = new Node(value, head_.next_node); ++size_;\<close>
  The handler \<^verbatim>\<open>catch (...) { throw; }\<close> rethrows and changes nothing.
\<close>

definition PushFront :: "'a allocator \<Rightarrow> lref \<Rightarrow> 'a \<Rightarrow> 'a state \<Rightarrow> 'a fault + 'a state" where
  "PushFront new this v st =
     (case new (heap st) of
        None \<Rightarrow> Inl (BadAlloc st)
      | Some a \<Rightarrow>
          (case node_at st (Sentinel this) of
             None \<Rightarrow> Inl Undefined
           | Some hd_node \<Rightarrow>
               (let st1 = st\<lparr>heap := (heap st)(a \<mapsto>
                            \<lparr>node_value = v, next_node = next_node hd_node\<rparr>)\<rparr>
                in case set_next (Sentinel this) (Dyn a) st1 of
                     None \<Rightarrow> Inl Undefined
                   | Some st2 \<Rightarrow>
                       (case get_size this st2 of
                          None \<Rightarrow> Inl Undefined
                        | Some n \<Rightarrow>
                            (case set_size this (n + 1) st2 of
                               None \<Rightarrow> Inl Undefined
                             | Some st3 \<Rightarrow> Inr st3)))))"

text \<open>
  \<^verbatim>\<open>pos.node_->next_node = new Node(value, pos.node_->next_node); ++size_;\<close>
  \<^verbatim>\<open>return Iterator{pos.node_->next_node};\<close>
\<close>

definition InsertAfter ::
  "'a allocator \<Rightarrow> lref \<Rightarrow> node_ptr \<Rightarrow> 'a \<Rightarrow> 'a state \<Rightarrow> 'a fault + (node_ptr \<times> 'a state)" where
  "InsertAfter new this pos v st =
     (case new (heap st) of
        None \<Rightarrow> Inl (BadAlloc st)
      | Some a \<Rightarrow>
          (case node_at st pos of
             None \<Rightarrow> Inl Undefined
           | Some pos_node \<Rightarrow>
               (let st1 = st\<lparr>heap := (heap st)(a \<mapsto>
                            \<lparr>node_value = v, next_node = next_node pos_node\<rparr>)\<rparr>
                in case set_next pos (Dyn a) st1 of
                     None \<Rightarrow> Inl Undefined
                   | Some st2 \<Rightarrow>
                       (case get_size this st2 of
                          None \<Rightarrow> Inl Undefined
                        | Some n \<Rightarrow>
                            (case set_size this (n + 1) st2 of
                               None \<Rightarrow> Inl Undefined
                             | Some st3 \<Rightarrow>
                                 (case node_at st3 pos of
                                    None \<Rightarrow> Inl Undefined
                                  | Some pos_node' \<Rightarrow> Inr (next_node pos_node', st3)))))))"

text \<open>
  \<^verbatim>\<open>if (!IsEmpty()) { Node* next = pos.node_->next_node;\<close>
  \<^verbatim>\<open>  pos.node_->next_node = pos.node_->next_node->next_node; delete next; --size_; }\<close>
  \<^verbatim>\<open>return Iterator{pos.node_->next_node};\<close>
\<close>

definition EraseAfter ::
  "lref \<Rightarrow> node_ptr \<Rightarrow> 'a state \<Rightarrow> 'a fault + (node_ptr \<times> 'a state)" where
  "EraseAfter this pos st =
     (case IsEmpty this st of
        None \<Rightarrow> Inl Undefined
      | Some e \<Rightarrow>
          (case (if \<not> e then
                   (case node_at st pos of
                      None \<Rightarrow> None
                    | Some pos_node \<Rightarrow>
                        (let next = next_node pos_node
                         in case node_at st next of
                              None \<Rightarrow> None
                            | Some next_n \<Rightarrow>
                                (case set_next pos (next_node next_n) st of
                                   None \<Rightarrow> None
                                 | Some st1 \<Rightarrow>
                                     (case delete_node next st1 of
                                        None \<Rightarrow> None
                                      | Some st2 \<Rightarrow>
                                          (case get_size this st2 of
                                             None \<Rightarrow> None
                                           | Some n \<Rightarrow> set_size this (n - 1) st2)))))
                 else Some st) of
             None \<Rightarrow> Inl Undefined
           | Some st' \<Rightarrow>
               (case node_at st' pos of
                  None \<Rightarrow> Inl Undefined
                | Some pos_node' \<Rightarrow> Inr (next_node pos_node', st'))))"

text \<open>
  \<^verbatim>\<open>if (!IsEmpty()) { Node* current = head_.next_node;\<close>
  \<^verbatim>\<open>  head_.next_node = head_.next_node->next_node; delete current; --size_; }\<close>
\<close>

definition PopFront :: "lref \<Rightarrow> 'a state \<Rightarrow> 'a fault + 'a state" where
  "PopFront this st =
     (case IsEmpty this st of
        None \<Rightarrow> Inl Undefined
      | Some e \<Rightarrow>
          (if \<not> e then
             (case node_at st (Sentinel this) of
                None \<Rightarrow> Inl Undefined
              | Some hd_node \<Rightarrow>
                  (let current = next_node hd_node
                   in case node_at st current of
                        None \<Rightarrow> Inl Undefined
                      | Some cur_n \<Rightarrow>
                          (case set_next (Sentinel this) (next_node cur_n) st of
                             None \<Rightarrow> Inl Undefined
                           | Some st1 \<Rightarrow>
                               (case delete_node current st1 of
                                  None \<Rightarrow> Inl Undefined
                                | Some st2 \<Rightarrow>
                                    (case get_size this st2 of
                                       None \<Rightarrow> Inl Undefined
                                     | Some n \<Rightarrow>
                                         (case set_size this (n - 1) st2 of
                                            None \<Rightarrow> Inl Undefined
                                          | Some st3 \<Rightarrow> Inr st3))))))
           else Inr st))"

text \<open>
  The loop of \<^verbatim>\<open>Clear\<close>:
  \<^verbatim>\<open>while (!IsEmpty()) { head_.next_node = head_.next_node->next_node;\<close>
  \<^verbatim>\<open>  delete current; current = head_.next_node; }\<close>
  It follows pointers for as long as the head link is not null, so nothing in its text
  bounds it: not returning is the value \<open>None\<close>.
\<close>

partial_function (option) Clear_loop ::
  "lref \<Rightarrow> node_ptr \<Rightarrow> 'a state \<Rightarrow> ('a fault + 'a state) option" where
  "Clear_loop this current st =
     (case IsEmpty this st of
        None \<Rightarrow> Some (Inl Undefined)
      | Some e \<Rightarrow>
          (if \<not> e then
             (case node_at st (Sentinel this) of
                None \<Rightarrow> Some (Inl Undefined)
              | Some hd_node \<Rightarrow>
                  (case node_at st (next_node hd_node) of
                     None \<Rightarrow> Some (Inl Undefined)
                   | Some first_n \<Rightarrow>
                       (case set_next (Sentinel this) (next_node first_n) st of
                          None \<Rightarrow> Some (Inl Undefined)
                        | Some st1 \<Rightarrow>
                            (case delete_node current st1 of
                               None \<Rightarrow> Some (Inl Undefined)
                             | Some st2 \<Rightarrow>
                                 (case node_at st2 (Sentinel this) of
                                    None \<Rightarrow> Some (Inl Undefined)
                                  | Some hd_node' \<Rightarrow>
                                      Clear_loop this (next_node hd_node') st2)))))
           else Some (Inr st)))"

definition Clear :: "lref \<Rightarrow> 'a state \<Rightarrow> ('a fault + 'a state) option" where
  "Clear this st =
     (case node_at st (Sentinel this) of
        None \<Rightarrow> Some (Inl Undefined)
      | Some hd_node \<Rightarrow>
          (case Clear_loop this (next_node hd_node) st of
             None \<Rightarrow> None
           | Some (Inl e) \<Rightarrow> Some (Inl e)
           | Some (Inr st1) \<Rightarrow>
               (case set_size this 0 st1 of
                  None \<Rightarrow> Some (Inl Undefined)
                | Some st2 \<Rightarrow> Some (Inr st2))))"

text \<open>
  \<^verbatim>\<open>std::swap(a, b)\<close> on two members is \<^verbatim>\<open>tmp = a; a = b; b = tmp\<close>. The two reads and the
  two writes go through the store one after the other, so that \<open>this\<close> and \<open>other\<close> may be
  the same object.
\<close>

definition swap_next :: "lref \<Rightarrow> lref \<Rightarrow> 'a state \<Rightarrow> 'a state option" where
  "swap_next this other st =
     (case node_at st (Sentinel this) of
        None \<Rightarrow> None
      | Some a_node \<Rightarrow>
          (let tmp = next_node a_node
           in case node_at st (Sentinel other) of
                None \<Rightarrow> None
              | Some b_node \<Rightarrow>
                  (case set_next (Sentinel this) (next_node b_node) st of
                     None \<Rightarrow> None
                   | Some st1 \<Rightarrow> set_next (Sentinel other) tmp st1)))"

definition swap_size :: "lref \<Rightarrow> lref \<Rightarrow> 'a state \<Rightarrow> 'a state option" where
  "swap_size this other st =
     (case get_size this st of
        None \<Rightarrow> None
      | Some tmp \<Rightarrow>
          (case get_size other st of
             None \<Rightarrow> None
           | Some b \<Rightarrow>
               (case set_size this b st of
                  None \<Rightarrow> None
                | Some st1 \<Rightarrow> set_size other tmp st1)))"

text \<open>
  \<^verbatim>\<open>std::swap(head_.next_node, other.head_.next_node); std::swap(size_, other.size_);\<close>
\<close>

definition swap :: "lref \<Rightarrow> lref \<Rightarrow> 'a state \<Rightarrow> 'a fault + 'a state" where
  "swap this other st =
     (case swap_next this other st of
        None \<Rightarrow> Inl Undefined
      | Some st1 \<Rightarrow>
          (case swap_size this other st1 of
             None \<Rightarrow> Inl Undefined
           | Some st2 \<Rightarrow> Inr st2))"

text \<open>The free function \<^verbatim>\<open>swap(lhs, rhs)\<close> calls \<^verbatim>\<open>lhs.swap(rhs)\<close>.\<close>

definition swap_free :: "lref \<Rightarrow> lref \<Rightarrow> 'a state \<Rightarrow> 'a fault + 'a state" where
  "swap_free lhs rhs st = swap lhs rhs st"

text \<open>
  The destructor runs \<^verbatim>\<open>Clear()\<close>; after it the object's storage, sentinel included, is gone.
\<close>

definition destroy :: "lref \<Rightarrow> 'a state \<Rightarrow> ('a fault + 'a state) option" where
  "destroy this st =
     (case Clear this st of
        None \<Rightarrow> None
      | Some (Inl e) \<Rightarrow> Some (Inl e)
      | Some (Inr st1) \<Rightarrow> Some (Inr (st1\<lparr>objs := (objs st1)(this := None)\<rparr>)))"

text \<open>
  The range loop \<^verbatim>\<open>for (auto it = first; it != end(); ++it)\<close> reading \<^verbatim>\<open>*it\<close>, as a client
  iterates from \<^verbatim>\<open>begin()\<close> to \<^verbatim>\<open>end()\<close>. \<^verbatim>\<open>operator*\<close> and \<^verbatim>\<open>operator++\<close> assert that the
  iterator holds a node.
\<close>

partial_function (option) range_values ::
  "'a state \<Rightarrow> node_ptr \<Rightarrow> 'a list \<Rightarrow> ('a fault + 'a list) option" where
  "range_values st it acc =
     (if it \<noteq> end_it then
        (case node_at st it of
           None \<Rightarrow> Some (Inl Undefined)
         | Some n \<Rightarrow> range_values st (next_node n) (acc @ [node_value n]))
      else Some (Inr acc))"

text \<open>The values a client sees iterating the list from \<^verbatim>\<open>begin()\<close> to \<^verbatim>\<open>end()\<close>.\<close>

definition iterate :: "lref \<Rightarrow> 'a state \<Rightarrow> ('a fault + 'a list) option" where
  "iterate this st =
     (case begin_it this st of
        None \<Rightarrow> Some (Inl Undefined)
      | Some b \<Rightarrow> range_values st b [])"

text \<open>
  A run of \<^verbatim>\<open>PushFront\<close> calls on one list, one per value and in the order of the values:
  the loops \<^verbatim>\<open>for (...) tmp.PushFront(*it)\<close> of the constructors, and a client calling
  \<^verbatim>\<open>PushFront(v1)\<close>, ..., \<^verbatim>\<open>PushFront(vn)\<close>. The first exception ends the run.
\<close>

fun PushFront_each :: "'a allocator \<Rightarrow> lref \<Rightarrow> 'a list \<Rightarrow> 'a state \<Rightarrow> 'a fault + 'a state" where
  "PushFront_each new this [] st = Inr st"
| "PushFront_each new this (v # vs) st =
     (case PushFront new this v st of
        Inl e \<Rightarrow> Inl e
      | Inr st1 \<Rightarrow> PushFront_each new this vs st1)"

text \<open>
  When an exception leaves a constructor, the local list \<open>tmp\<close> is destroyed and the
  storage of the object under construction is released (its destructor does not run).
\<close>

definition unwind_ctor :: "lref \<Rightarrow> lref \<Rightarrow> 'a state \<Rightarrow> ('a fault + 'a state) option" where
  "unwind_ctor tmp this st =
     (case destroy tmp st of
        None \<Rightarrow> None
      | Some (Inl e) \<Rightarrow> Some (Inl e)
      | Some (Inr st1) \<Rightarrow> Some (Inl (BadAlloc (st1\<lparr>objs := (objs st1)(this := None)\<rparr>))))"

text \<open>
  The body shared by the two constructors, once the values to hold are known:
  \<^verbatim>\<open>for (auto it = rbegin; it != rend; ++it) tmp.PushFront(*it); swap(tmp);\<close>
  and then the end of the scope of \<open>tmp\<close>.
\<close>

definition fill_and_swap ::
  "'a allocator \<Rightarrow> lref \<Rightarrow> lref \<Rightarrow> 'a list \<Rightarrow> 'a state \<Rightarrow> ('a fault + 'a state) option" where
  "fill_and_swap new tmp this values st =
     (case PushFront_each new tmp (rev values) st of
        Inl (BadAlloc st1) \<Rightarrow> unwind_ctor tmp this st1
      | Inl Undefined \<Rightarrow> Some (Inl Undefined)
      | Inr st1 \<Rightarrow>
          (case swap this tmp st1 of
             Inl e \<Rightarrow> Some (Inl e)
           | Inr st2 \<Rightarrow> destroy tmp st2))"

text \<open>
  \<^verbatim>\<open>SingleLinkedList(std::initializer_list<Type> values)\<close>, constructing at location
  \<open>this\<close>, its local \<open>tmp\<close> at location \<open>tmp\<close>.
\<close>

definition init_ctor ::
  "'a allocator \<Rightarrow> 'a \<Rightarrow> lref \<Rightarrow> lref \<Rightarrow> 'a list \<Rightarrow> 'a state \<Rightarrow> ('a fault + 'a state) option" where
  "init_ctor new dflt tmp this values st =
     (let st0 = member_init dflt this st
      in case IsEmpty this st0 of
           None \<Rightarrow> Some (Inl Undefined)
         | Some e \<Rightarrow>
             (case get_size this st0 of
                None \<Rightarrow> Some (Inl Undefined)
              | Some n \<Rightarrow>
                  (if e \<and> n = 0 then
                     fill_and_swap new tmp this values (member_init dflt tmp st0)
                   else Some (Inr st0))))"

text \<open>
  The first loop of the copy constructor:
  \<^verbatim>\<open>for (auto it = other.begin(); it != other.end(); ++it) tmp_v.push_back(*it);\<close>
  The element is read first, then \<^verbatim>\<open>push_back\<close> may throw; the loop changes no list.
\<close>

partial_function (option) fill_vector ::
  "'a vec_allocator \<Rightarrow> 'a state \<Rightarrow> node_ptr \<Rightarrow> 'a list \<Rightarrow> ('a fault + 'a list) option" where
  "fill_vector vnew st it tmp_v =
     (if it \<noteq> end_it then
        (case node_at st it of
           None \<Rightarrow> Some (Inl Undefined)
         | Some n \<Rightarrow>
             (if vnew (heap st) (length tmp_v) then
                fill_vector vnew st (next_node n) (tmp_v @ [node_value n])
              else Some (Inl (BadAlloc st))))
      else Some (Inr tmp_v))"

text \<open>
  \<^verbatim>\<open>SingleLinkedList(const SingleLinkedList& other)\<close>, constructing at location \<open>this\<close>,
  its local \<open>tmp\<close> at location \<open>tmp\<close>. An exception out of \<^verbatim>\<open>push_back\<close> unwinds like one
  out of \<^verbatim>\<open>PushFront\<close>.
\<close>

definition copy_ctor ::
  "'a allocator \<Rightarrow> 'a vec_allocator \<Rightarrow> 'a \<Rightarrow> lref \<Rightarrow> lref \<Rightarrow> lref \<Rightarrow> 'a state
     \<Rightarrow> ('a fault + 'a state) option" where
  "copy_ctor new vnew dflt tmp this other st =
     (let st0 = member_init dflt this st
      in case IsEmpty this st0 of
           None \<Rightarrow> Some (Inl Undefined)
         | Some e \<Rightarrow>
             (case get_size this st0 of
                None \<Rightarrow> Some (Inl Undefined)
              | Some n \<Rightarrow>
                  (if e \<and> n = 0 then
                     (let st1 = member_init dflt tmp st0
                      in case begin_it other st1 of
                           None \<Rightarrow> Some (Inl Undefined)
                         | Some b \<Rightarrow>
                             (case fill_vector vnew st1 b [] of
                                None \<Rightarrow> None
                              | Some (Inl (BadAlloc st2)) \<Rightarrow> unwind_ctor tmp this st2
                              | Some (Inl Undefined) \<Rightarrow> Some (Inl Undefined)
                              | Some (Inr tmp_v) \<Rightarrow> fill_and_swap new tmp this tmp_v st1))
                   else Some (Inr st0))))"

text \<open>
  \<^verbatim>\<open>if (this != &rhs) { auto copy_value(rhs); swap(copy_value); } return *this;\<close>
  The local \<^verbatim>\<open>copy_value\<close> lives at location \<open>cv\<close>, the local of its constructor at \<open>tmp\<close>.
\<close>

definition assign ::
  "'a allocator \<Rightarrow> 'a vec_allocator \<Rightarrow> 'a \<Rightarrow> lref \<Rightarrow> lref \<Rightarrow> lref \<Rightarrow> lref \<Rightarrow> 'a state
     \<Rightarrow> ('a fault + 'a state) option" where
  "assign new vnew dflt tmp cv this rhs st =
     (if this \<noteq> rhs then
        (case copy_ctor new vnew dflt tmp cv rhs st of
           None \<Rightarrow> None
         | Some (Inl e) \<Rightarrow> Some (Inl e)
         | Some (Inr st1) \<Rightarrow>
             (case swap this cv st1 of
                Inl e \<Rightarrow> Some (Inl e)
              | Inr st2 \<Rightarrow> destroy cv st2))
      else Some (Inr st))"

section \<open>The comparison operators\<close>

text \<open>
  \<^verbatim>\<open>std::equal(first1, last1, first2)\<close> and \<^verbatim>\<open>std::lexicographical_compare\<close> belong to
  the C++ standard library, not to the repository; they are written out here as the
  standard defines them, over the list's iterators. \<open>eq\<close> and \<open>lt\<close> are \<^verbatim>\<open>operator==\<close>
  and \<^verbatim>\<open>operator<\<close> of the element type.
\<close>

partial_function (option) std_equal ::
  "('a \<Rightarrow> 'a \<Rightarrow> bool) \<Rightarrow> 'a state \<Rightarrow> node_ptr \<Rightarrow> node_ptr \<Rightarrow> node_ptr \<Rightarrow> ('a fault + bool) option" where
  "std_equal eq st first1 last1 first2 =
     (if first1 \<noteq> last1 then
        (case node_at st first1 of
           None \<Rightarrow> Some (Inl Undefined)
         | Some n1 \<Rightarrow>
             (case node_at st first2 of
                None \<Rightarrow> Some (Inl Undefined)
              | Some n2 \<Rightarrow>
                  (if \<not> eq (node_value n1) (node_value n2) then Some (Inr False)
                   else std_equal eq st (next_node n1) last1 (next_node n2))))
      else Some (Inr True))"

partial_function (option) std_lexicographical_compare ::
  "('a \<Rightarrow> 'a \<Rightarrow> bool) \<Rightarrow> 'a state \<Rightarrow> node_ptr \<Rightarrow> node_ptr \<Rightarrow> node_ptr \<Rightarrow> node_ptr
     \<Rightarrow> ('a fault + bool) option" where
  "std_lexicographical_compare lt st first1 last1 first2 last2 =
     (if first1 \<noteq> last1 \<and> first2 \<noteq> last2 then
        (case node_at st first1 of
           None \<Rightarrow> Some (Inl Undefined)
         | Some n1 \<Rightarrow>
             (case node_at st first2 of
                None \<Rightarrow> Some (Inl Undefined)
              | Some n2 \<Rightarrow>
                  (if lt (node_value n1) (node_value n2) then Some (Inr True)
                   else if lt (node_value n2) (node_value n1) then Some (Inr False)
                   else std_lexicographical_compare lt st
                          (next_node n1) last1 (next_node n2) last2)))
      else Some (Inr (first1 = last1 \<and> first2 \<noteq> last2)))"

definition op_eq ::
  "('a \<Rightarrow> 'a \<Rightarrow> bool) \<Rightarrow> lref \<Rightarrow> lref \<Rightarrow> 'a state \<Rightarrow> ('a fault + bool) option" where
  "op_eq eq lhs rhs st =
     (case GetSize lhs st of
        None \<Rightarrow> Some (Inl Undefined)
      | Some n1 \<Rightarrow>
          (case GetSize rhs st of
             None \<Rightarrow> Some (Inl Undefined)
           | Some n2 \<Rightarrow>
               (if n1 \<noteq> n2 then Some (Inr False)
                else (case begin_it lhs st of
                        None \<Rightarrow> Some (Inl Undefined)
                      | Some b1 \<Rightarrow>
                          (case begin_it rhs st of
                             None \<Rightarrow> Some (Inl Undefined)
                           | Some b2 \<Rightarrow> std_equal eq st b1 end_it b2)))))"

definition negate :: "('a fault + bool) option \<Rightarrow> ('a fault + bool) option" where
  "negate r = (case r of None \<Rightarrow> None | Some (Inl e) \<Rightarrow> Some (Inl e) | Some (Inr b) \<Rightarrow> Some (Inr (\<not> b)))"

definition op_ne ::
  "('a \<Rightarrow> 'a \<Rightarrow> bool) \<Rightarrow> lref \<Rightarrow> lref \<Rightarrow> 'a state \<Rightarrow> ('a fault + bool) option" where
  "op_ne eq lhs rhs st = negate (op_eq eq lhs rhs st)"

definition op_lt ::
  "('a \<Rightarrow> 'a \<Rightarrow> bool) \<Rightarrow> lref \<Rightarrow> lref \<Rightarrow> 'a state \<Rightarrow> ('a fault + bool) option" where
  "op_lt lt lhs rhs st =
     (case begin_it lhs st of
        None \<Rightarrow> Some (Inl Undefined)
      | Some b1 \<Rightarrow>
          (case begin_it rhs st of
             None \<Rightarrow> Some (Inl Undefined)
           | Some b2 \<Rightarrow> std_lexicographical_compare lt st b1 end_it b2 end_it))"

definition op_le ::
  "('a \<Rightarrow> 'a \<Rightarrow> bool) \<Rightarrow> lref \<Rightarrow> lref \<Rightarrow> 'a state \<Rightarrow> ('a fault + bool) option" where
  "op_le lt lhs rhs st = negate (op_lt lt rhs lhs st)"

definition op_gt ::
  "('a \<Rightarrow> 'a \<Rightarrow> bool) \<Rightarrow> lref \<Rightarrow> lref \<Rightarrow> 'a state \<Rightarrow> ('a fault + bool) option" where
  "op_gt lt lhs rhs st = op_lt lt rhs lhs st"

definition op_ge ::
  "('a \<Rightarrow> 'a \<Rightarrow> bool) \<Rightarrow> lref \<Rightarrow> lref \<Rightarrow> 'a state \<Rightarrow> ('a fault + bool) option" where
  "op_ge lt lhs rhs st = negate (op_lt lt lhs rhs st)"

section \<open>What a list object holds\<close>

text \<open>
  \<open>path h p cs q\<close>: following \<^verbatim>\<open>next_node\<close> from the pointer \<open>p\<close> visits exactly the heap
  nodes listed in \<open>cs\<close>, each with its address and its value, and ends at the pointer \<open>q\<close>
  after \<open>length cs\<close> steps.
\<close>

fun path :: "(addr \<Rightarrow> 'a Node option) \<Rightarrow> node_ptr \<Rightarrow> (addr \<times> 'a) list \<Rightarrow> node_ptr \<Rightarrow> bool" where
  "path h p [] q = (p = q)"
| "path h p (c # cs) q =
     (p = Dyn (fst c) \<and>
      (case h (fst c) of
         None \<Rightarrow> False
       | Some n \<Rightarrow> node_value n = snd c \<and> path h (next_node n) cs q))"

text \<open>
  \<open>list_inv st l cs\<close>: the list object at \<open>l\<close> is alive, the chain behind its sentinel is
  \<open>cs\<close> and ends in the null pointer, the recorded count is the number of its nodes, and
  no node sits at the null address.
\<close>

definition list_inv :: "'a state \<Rightarrow> lref \<Rightarrow> (addr \<times> 'a) list \<Rightarrow> bool" where
  "list_inv st l cs =
     (case objs st l of
        None \<Rightarrow> False
      | Some L \<Rightarrow>
          path (heap st) (next_node (m_head L)) cs Null \<and>
          unat (m_size L) = length cs \<and>
          (\<forall>c \<in> set cs. fst c \<noteq> 0))"

text \<open>
  What any \<^verbatim>\<open>operator new\<close> guarantees: the storage it returns is not null and is not
  in use.
\<close>

definition sound_alloc :: "'a allocator \<Rightarrow> bool" where
  "sound_alloc new = (\<forall>h a. new h = Some a \<longrightarrow> a \<noteq> 0 \<and> h a = None)"

text \<open>
  \<open>can_allocate new h n\<close>, a property of the allocator alone: starting from the heap \<open>h\<close>
  it has room for \<open>n\<close> nodes, that is, \<^verbatim>\<open>new\<close> succeeds on every heap whose nodes in use
  are those of \<open>h\<close> and fewer than \<open>n\<close> further ones.
\<close>

definition can_allocate :: "'a allocator \<Rightarrow> (addr \<Rightarrow> 'a Node option) \<Rightarrow> nat \<Rightarrow> bool" where
  "can_allocate new h n =
     (\<forall>h' as. distinct as \<and> length as < n \<and> (\<forall>a \<in> set as. h a = None) \<and>
        (\<forall>a. (h' a \<noteq> None) = (h a \<noteq> None \<or> a \<in> set as)) \<longrightarrow> new h' \<noteq> None)"

text \<open>The call ended with \<^verbatim>\<open>std::bad_alloc\<close>.\<close>

definition throws :: "'a fault + 'b \<Rightarrow> bool" where
  "throws r = (case r of Inl (BadAlloc _) \<Rightarrow> True | Inl Undefined \<Rightarrow> False | Inr _ \<Rightarrow> False)"

text \<open>An allocator over a fixed pool of addresses: the first one not in use.\<close>

definition pool_alloc :: "addr list \<Rightarrow> 'a allocator" where
  "pool_alloc pool h = find (\<lambda>a. h a = None) pool"

text \<open>The store before any list has been constructed.\<close>

definition no_lists :: "'a state" where
  "no_lists = \<lparr>objs = (\<lambda>l. None), heap = (\<lambda>a. None)\<rparr>"

text \<open>
  A store with two lists: the list at 0 holds 10, 20 in the nodes at addresses 1 and 2,
  the list at 1 holds 30 in the node at address 3.
\<close>

definition two_lists :: "nat state" where
  "two_lists =
     \<lparr>objs = (\<lambda>l. None)
        (0 \<mapsto> \<lparr>m_head = \<lparr>node_value = 0, next_node = Dyn 1\<rparr>, m_size = 2\<rparr>,
         1 \<mapsto> \<lparr>m_head = \<lparr>node_value = 0, next_node = Dyn 3\<rparr>, m_size = 1\<rparr>),
      heap = (\<lambda>a. None)
        (1 \<mapsto> \<lparr>node_value = 10, next_node = Dyn 2\<rparr>,
         2 \<mapsto> \<lparr>node_value = 20, next_node = Null\<rparr>,
         3 \<mapsto> \<lparr>node_value = 30, next_node = Null\<rparr>)\<rparr>"

text \<open>The pointer to the first node of a chain: null for the empty chain.\<close>

definition chain_start :: "(addr \<times> 'a) list \<Rightarrow> node_ptr" where
  "chain_start cs = (case cs of [] \<Rightarrow> Null | c # _ \<Rightarrow> Dyn (fst c))"

text \<open>
  The position right behind the cells \<open>pre\<close> of a list: \<^verbatim>\<open>before_begin()\<close> when \<open>pre\<close> is
  empty, the iterator at the last cell of \<open>pre\<close> otherwise.
\<close>

definition pos_after :: "lref \<Rightarrow> (addr \<times> 'a) list \<Rightarrow> node_ptr" where
  "pos_after l pre = (if pre = [] then Sentinel l else Dyn (fst (last pre)))"

text \<open>
  A position of the list at \<open>l\<close> that references a node: the sentinel or one of the
  real elements.
\<close>

definition valid_pos :: "lref \<Rightarrow> (addr \<times> 'a) list \<Rightarrow> node_ptr \<Rightarrow> bool" where
  "valid_pos l cs pos = (pos = Sentinel l \<or> (\<exists>c \<in> set cs. pos = Dyn (fst c)))"

text \<open>
  A position with a real successor in a non-empty list: \<^verbatim>\<open>before_begin()\<close>, or a real
  element that is not the last one.
\<close>

definition has_successor :: "lref \<Rightarrow> (addr \<times> 'a) list \<Rightarrow> node_ptr \<Rightarrow> bool" where
  "has_successor l cs pos =
     (cs \<noteq> [] \<and> (pos = Sentinel l \<or> (\<exists>c \<in> set (butlast cs). pos = Dyn (fst c))))"

text \<open>A store with one default-constructed list at location 0.\<close>

definition one_empty_list :: "nat state" where
  "one_empty_list = member_init 0 0 no_lists"

text \<open>
  Lexicographical comparison of two sequences as the specification words it: the first
  position where the elements differ decides, and a strict prefix is less.
\<close>

fun lex_less :: "('a \<Rightarrow> 'a \<Rightarrow> bool) \<Rightarrow> 'a list \<Rightarrow> 'a list \<Rightarrow> bool" where
  "lex_less lt [] [] = False"
| "lex_less lt [] (y # ys) = True"
| "lex_less lt (x # xs) [] = False"
| "lex_less lt (x # xs) (y # ys) = (lt x y \<or> (\<not> lt y x \<and> lex_less lt xs ys))"

text \<open>A store with three lists holding 1, 2 and 1, 2, 3 and 1, 2, 4.\<close>

definition three_lists :: "nat state" where
  "three_lists =
     \<lparr>objs = (\<lambda>l. None)
        (0 \<mapsto> \<lparr>m_head = \<lparr>node_value = 0, next_node = Dyn 1\<rparr>, m_size = 2\<rparr>,
         1 \<mapsto> \<lparr>m_head = \<lparr>node_value = 0, next_node = Dyn 3\<rparr>, m_size = 3\<rparr>,
         2 \<mapsto> \<lparr>m_head = \<lparr>node_value = 0, next_node = Dyn 6\<rparr>, m_size = 3\<rparr>),
      heap = (\<lambda>a. None)
        (1 \<mapsto> \<lparr>node_value = 1, next_node = Dyn 2\<rparr>,
         2 \<mapsto> \<lparr>node_value = 2, next_node = Null\<rparr>,
         3 \<mapsto> \<lparr>node_value = 1, next_node = Dyn 4\<rparr>,
         4 \<mapsto> \<lparr>node_value = 2, next_node = Dyn 5\<rparr>,
         5 \<mapsto> \<lparr>node_value = 3, next_node = Null\<rparr>,
         6 \<mapsto> \<lparr>node_value = 1, next_node = Dyn 7\<rparr>,
         7 \<mapsto> \<lparr>node_value = 2, next_node = Dyn 8\<rparr>,
         8 \<mapsto> \<lparr>node_value = 4, next_node = Null\<rparr>)\<rparr>"


section \<open>The invariant of reachable stores\<close>

text \<open>
  The public operations as calls a client can make. The constructors and the assignment
  carry the locations of their local list objects.
\<close>

datatype 'a call =
    Construct lref
  | Construct_init lref lref "'a list"
  | Construct_copy lref lref lref
  | Assign lref lref lref lref
  | Call_PushFront lref 'a
  | Call_PopFront lref
  | Call_InsertAfter lref node_ptr 'a
  | Call_EraseAfter lref node_ptr
  | Call_Clear lref
  | Call_swap lref lref
  | Call_swap_free lref lref
  | Destruct lref

text \<open>The store a call leaves, the iterator it returns dropped.\<close>

definition store_of :: "'a fault + ('r \<times> 'a state) \<Rightarrow> 'a fault + 'a state" where
  "store_of r = (case r of Inl e \<Rightarrow> Inl e | Inr (it, st) \<Rightarrow> Inr st)"

fun run ::
  "'a allocator \<Rightarrow> 'a vec_allocator \<Rightarrow> 'a \<Rightarrow> 'a call \<Rightarrow> 'a state \<Rightarrow> ('a fault + 'a state) option" where
  "run new vnew dflt (Construct this) st = Some (Inr (member_init dflt this st))"
| "run new vnew dflt (Construct_init tmp this vs) st = init_ctor new dflt tmp this vs st"
| "run new vnew dflt (Construct_copy tmp this other) st = copy_ctor new vnew dflt tmp this other st"
| "run new vnew dflt (Assign tmp cv this rhs) st = assign new vnew dflt tmp cv this rhs st"
| "run new vnew dflt (Call_PushFront this v) st = Some (PushFront new this v st)"
| "run new vnew dflt (Call_PopFront this) st = Some (PopFront this st)"
| "run new vnew dflt (Call_InsertAfter this pos v) st = Some (store_of (InsertAfter new this pos v st))"
| "run new vnew dflt (Call_EraseAfter this pos) st = Some (store_of (EraseAfter this pos st))"
| "run new vnew dflt (Call_Clear this) st = Clear this st"
| "run new vnew dflt (Call_swap this other) st = Some (swap this other st)"
| "run new vnew dflt (Call_swap_free lhs rhs) st = Some (swap_free lhs rhs st)"
| "run new vnew dflt (Destruct this) st = destroy this st"

text \<open>
  What a call requires of its caller: a constructor runs on storage that holds no list
  (and so do its locals), a member function on a live list; \<^verbatim>\<open>InsertAfter\<close> takes a position
  that references the sentinel or an element of this list; \<^verbatim>\<open>EraseAfter\<close> takes a position
  of this list that has a successor, or \<^verbatim>\<open>before_begin()\<close> of an empty list.
\<close>

fun contract :: "'a state \<Rightarrow> 'a call \<Rightarrow> bool" where
  "contract st (Construct this) = (objs st this = None)"
| "contract st (Construct_init tmp this vs) =
     (objs st this = None \<and> objs st tmp = None \<and> this \<noteq> tmp)"
| "contract st (Construct_copy tmp this other) =
     (objs st this = None \<and> objs st tmp = None \<and> this \<noteq> tmp \<and> objs st other \<noteq> None)"
| "contract st (Assign tmp cv this rhs) =
     (objs st this \<noteq> None \<and> objs st rhs \<noteq> None \<and>
      objs st cv = None \<and> objs st tmp = None \<and> cv \<noteq> tmp)"
| "contract st (Call_PushFront this v) = (objs st this \<noteq> None)"
| "contract st (Call_PopFront this) = (objs st this \<noteq> None)"
| "contract st (Call_InsertAfter this pos v) =
     (\<exists>cs. list_inv st this cs \<and> valid_pos this cs pos)"
| "contract st (Call_EraseAfter this pos) =
     (\<exists>cs. list_inv st this cs \<and> (has_successor this cs pos \<or> cs = [] \<and> valid_pos this cs pos))"
| "contract st (Call_Clear this) = (objs st this \<noteq> None)"
| "contract st (Call_swap this other) = (objs st this \<noteq> None \<and> objs st other \<noteq> None)"
| "contract st (Call_swap_free lhs rhs) = (objs st lhs \<noteq> None \<and> objs st rhs \<noteq> None)"
| "contract st (Destruct this) = (objs st this \<noteq> None)"

text \<open>
  The stores a program can reach: it starts with no list and makes calls within their
  contracts; a call that throws \<^verbatim>\<open>std::bad_alloc\<close> leaves a store the program goes on with.
\<close>

inductive reachable :: "'a allocator \<Rightarrow> 'a vec_allocator \<Rightarrow> 'a \<Rightarrow> 'a state \<Rightarrow> bool"
  for new vnew dflt where
  start: "reachable new vnew dflt no_lists"
| returns: "reachable new vnew dflt st \<Longrightarrow> contract st c \<Longrightarrow> run new vnew dflt c st = Some (Inr st') \<Longrightarrow>
     reachable new vnew dflt st'"
| throws: "reachable new vnew dflt st \<Longrightarrow> contract st c \<Longrightarrow>
     run new vnew dflt c st = Some (Inl (BadAlloc st')) \<Longrightarrow> reachable new vnew dflt st'"

text \<open>
  Every live list has a chain that fits its count, and two lists share no node.
\<close>

definition store_inv :: "'a state \<Rightarrow> bool" where
  "store_inv st =
     ((\<forall>l. objs st l \<noteq> None \<longrightarrow> (\<exists>cs. list_inv st l cs)) \<and>
      (\<forall>l l' cs cs'. l \<noteq> l' \<longrightarrow> list_inv st l cs \<longrightarrow> list_inv st l' cs' \<longrightarrow>
         fst ` set cs \<inter> fst ` set cs' = {}))"

text \<open>\<^verbatim>\<open>operator++\<close> applied \<open>n\<close> times to an iterator; nothing when an increment asserts.\<close>

fun advance :: "'a state \<Rightarrow> nat \<Rightarrow> node_ptr \<Rightarrow> node_ptr option" where
  "advance st 0 it = Some it"
| "advance st (Suc n) it =
     (case node_at st it of None \<Rightarrow> None | Some nd \<Rightarrow> advance st n (next_node nd))"

text \<open>The heap nodes reachable by following links from the node an iterator is at.\<close>

definition nodes_after :: "'a state \<Rightarrow> node_ptr \<Rightarrow> addr set" where
  "nodes_after st it = {a. \<exists>n. advance st (Suc n) it = Some (Dyn a)}"

text \<open>
  The invariant of one list as the specification words it: the recorded count is the
  number of nodes reachable from the sentinel; the traversal that starts at the first
  element visits a heap node at each of its first \<open>count\<close> positions, never the same
  node twice, and is at the null pointer after exactly \<open>count\<close> increments. Counted
  from the sentinel itself, which is one link before the first element, that is
  \<open>count\<close> nodes visited and \<open>count + 1\<close> links followed.
\<close>

definition counted :: "'a state \<Rightarrow> lref \<Rightarrow> bool" where
  "counted st l =
     (\<exists>n b. GetSize l st = Some n \<and> begin_it l st = Some b \<and>
        finite (nodes_after st (before_begin l)) \<and>
        card (nodes_after st (before_begin l)) = unat n \<and>
        advance st (unat n) b = Some end_it \<and>
        advance st (Suc (unat n)) (before_begin l) = Some end_it \<and>
        (\<forall>i < unat n. \<exists>a. advance st i b = Some (Dyn a)) \<and>
        (\<forall>i j. i < j \<longrightarrow> j \<le> unat n \<longrightarrow> advance st i b \<noteq> advance st j b))"

text \<open>A store with one list at location 0 holding the value 5 in the node at address 1.\<close>

definition one_pushed :: "nat state" where
  "one_pushed =
     \<lparr>objs = (\<lambda>l. None)(0 \<mapsto> \<lparr>m_head = \<lparr>node_value = 0, next_node = Dyn 1\<rparr>, m_size = 1\<rparr>),
      heap = (\<lambda>a. None)(1 \<mapsto> \<lparr>node_value = 5, next_node = Null\<rparr>)\<rparr>"

section \<open>Chains in the heap\<close>

lemma path_Null_start: "path h Null cs q \<longleftrightarrow> cs = [] \<and> q = Null"
  by (cases cs) auto

lemma path_Sentinel_start: "path h (Sentinel l) cs q \<longleftrightarrow> cs = [] \<and> q = Sentinel l"
  by (cases cs) auto

lemma path_append: "path h p (cs @ ds) q \<longleftrightarrow> (\<exists>r. path h p cs r \<and> path h r ds q)"
  by (induction cs arbitrary: p) (auto split: option.splits)

lemma path_upd_other:
  "a \<notin> fst ` set cs \<Longrightarrow> path (h(a := x)) p cs q = path h p cs q"
  by (induction cs arbitrary: p) (auto split: option.splits)

lemma path_in_dom: "path h p cs q \<Longrightarrow> a \<in> fst ` set cs \<Longrightarrow> h a \<noteq> None"
  by (induction cs arbitrary: p) (auto split: option.splits)

lemma chain_unique: "path h p cs Null \<Longrightarrow> path h p ds Null \<Longrightarrow> cs = ds"
proof (induction cs arbitrary: p ds)
  case Nil
  then show ?case by (simp add: path_Null_start)
next
  case (Cons c cs)
  then obtain d ds' where ds: "ds = d # ds'" by (cases ds) auto
  with Cons.prems have "fst c = fst d" by simp
  with Cons.prems ds have "snd c = snd d" "cs = ds'"
    by (auto split: option.splits dest: Cons.IH)
  with \<open>fst c = fst d\<close> ds show ?case by (simp add: prod_eq_iff)
qed

lemma chain_head_fresh:
  assumes "h a = Some n" and "path h (next_node n) cs Null"
  shows "a \<notin> fst ` set cs"
proof
  assume "a \<in> fst ` set cs"
  then obtain x where "(a, x) \<in> set cs" by auto
  then obtain pre post where cs: "cs = pre @ (a, x) # post"
    by (auto simp: in_set_conv_decomp)
  with assms(2) obtain r where "path h r ((a, x) # post) Null"
    by (auto simp: path_append)
  with assms(1) have "path h (next_node n) post Null" by simp
  with assms(2) have "cs = post" by (rule chain_unique)
  with cs show False by simp
qed

lemma chain_distinct: "path h p cs Null \<Longrightarrow> distinct (map fst cs)"
proof (induction cs arbitrary: p)
  case Nil
  show ?case by simp
next
  case (Cons c cs)
  then obtain n where n: "h (fst c) = Some n" "path h (next_node n) cs Null"
    by (auto split: option.splits)
  from chain_head_fresh [OF n] Cons.IH [OF n(2)] show ?case by simp
qed

lemma distinct_nonzero_length:
  fixes as :: "addr list"
  assumes "distinct as" and "0 \<notin> set as"
  shows "length as < 2 ^ 64"
proof -
  have "set as \<subseteq> UNIV - {0}" using assms(2) by auto
  then have "card (set as) \<le> card (UNIV - {0 :: addr})"
    by (intro card_mono) auto
  also have "\<dots> = 2 ^ 64 - 1"
    by (simp add: card_Diff_singleton card_word)
  finally show ?thesis using distinct_card [OF assms(1)] by simp
qed

lemma chain_length_bound:
  assumes "path h p cs Null" and "\<forall>c \<in> set cs. fst c \<noteq> 0"
  shows "length cs < 2 ^ 64"
proof -
  have "0 \<notin> set (map fst cs)" using assms(2) by auto
  from distinct_nonzero_length [OF chain_distinct [OF assms(1)] this] show ?thesis by simp
qed

lemma range_values_chain:
  "path (heap st) p cs Null \<Longrightarrow> range_values st p acc = Some (Inr (acc @ map snd cs))"
proof (induction cs arbitrary: p acc)
  case Nil
  then show ?case by (subst range_values.simps) (simp add: end_it_def)
next
  case (Cons c cs)
  then obtain n where n: "p = Dyn (fst c)" "heap st (fst c) = Some n" "node_value n = snd c"
    "path (heap st) (next_node n) cs Null"
    by (auto split: option.splits)
  from Cons.IH [OF n(4)] n(1-3) show ?case
    by (subst range_values.simps) (simp add: end_it_def node_at_def)
qed

lemma list_inv_frame:
  assumes "list_inv st l cs" and "objs st' l = objs st l"
    and "\<forall>a \<in> fst ` set cs. heap st' a = heap st a"
  shows "list_inv st' l cs"
proof -
  have "path (heap st') p cs q = path (heap st) p cs q" for p q
    using assms(3) by (induction cs arbitrary: p) (auto split: option.splits)
  with assms(1,2) show ?thesis by (simp add: list_inv_def split: option.splits)
qed

lemma list_inv_unique: "list_inv st l cs \<Longrightarrow> list_inv st l ds \<Longrightarrow> cs = ds"
  by (auto simp: list_inv_def split: option.splits dest: chain_unique)

lemma list_inv_dom: "list_inv st l cs \<Longrightarrow> a \<in> fst ` set cs \<Longrightarrow> heap st a \<noteq> None"
  by (auto simp: list_inv_def split: option.splits dest: path_in_dom)

lemma unat_inc_size:
  fixes n :: "64 word"
  assumes "unat n = k" and "Suc k < 2 ^ 64"
  shows "unat (n + 1) = Suc k"
proof -
  have "unat (n + 1) = (unat n + 1) mod 2 ^ 64"
    by (simp add: unat_word_ariths)
  with assms show ?thesis by simp
qed

lemma unat_dec_size:
  fixes n :: "64 word"
  assumes "unat n = Suc k"
  shows "unat (n - 1) = k"
proof -
  have "n \<noteq> 0" using assms by (auto simp: unat_eq_0)
  then have "unat (n - 1) = unat n - 1" by (rule unat_minus_one)
  with assms show ?thesis by simp
qed

section \<open>Front insertion\<close>

lemma PushFront_throws:
  "new (heap st) = None \<Longrightarrow> PushFront new l v st = Inl (BadAlloc st)"
  by (simp add: PushFront_def)

lemma PushFront_effect:
  assumes "new (heap st) = Some a" and "objs st l = Some L"
  shows "\<exists>st'. PushFront new l v st = Inr st' \<and>
           objs st' = (objs st)(l \<mapsto> L\<lparr>m_head := (m_head L)\<lparr>next_node := Dyn a\<rparr>,
                                         m_size := m_size L + 1\<rparr>) \<and>
           heap st' = (heap st)(a \<mapsto> \<lparr>node_value = v, next_node = next_node (m_head L)\<rparr>)"
  using assms
  by (simp add: PushFront_def node_at_def set_next_def get_size_def set_size_def)

lemma PushFront_list_inv:
  assumes inv: "list_inv st l cs" and new: "new (heap st) = Some a"
    and fresh: "heap st a = None" "a \<noteq> 0"
  shows "\<exists>st'. PushFront new l v st = Inr st' \<and> list_inv st' l ((a, v) # cs) \<and>
           (\<forall>l'. l' \<noteq> l \<longrightarrow> objs st' l' = objs st l') \<and>
           (\<exists>L'. objs st' l = Some L') \<and>
           heap st' = (heap st)(a \<mapsto> \<lparr>node_value = v, next_node =
              (case cs of [] \<Rightarrow> Null | c # _ \<Rightarrow> Dyn (fst c))\<rparr>)"
proof -
  from inv obtain L where L: "objs st l = Some L"
    and p: "path (heap st) (next_node (m_head L)) cs Null"
    and sz: "unat (m_size L) = length cs" and nz: "\<forall>c \<in> set cs. fst c \<noteq> 0"
    by (auto simp: list_inv_def split: option.splits)
  from PushFront_effect [of new st a l L v] new L obtain st' where
    r: "PushFront new l v st = Inr st'"
    and o: "objs st' = (objs st)(l \<mapsto> L\<lparr>m_head := (m_head L)\<lparr>next_node := Dyn a\<rparr>,
                                         m_size := m_size L + 1\<rparr>)"
    and h: "heap st' = (heap st)(a \<mapsto> \<lparr>node_value = v, next_node = next_node (m_head L)\<rparr>)"
    by blast
  have notin: "a \<notin> fst ` set cs"
    using path_in_dom [OF p] fresh(1) by blast
  then have p': "path (heap st') (next_node (m_head L)) cs Null"
    using p h by (simp add: path_upd_other)
  have p'': "path (heap st') (Dyn a) ((a, v) # cs) Null"
    using p' h by simp
  have nz': "\<forall>c \<in> set ((a, v) # cs). fst c \<noteq> 0" using nz fresh(2) by simp
  from chain_length_bound [OF p'' nz'] have "Suc (length cs) < 2 ^ 64" by simp
  from unat_inc_size [OF sz this] have sz': "unat (m_size L + 1) = Suc (length cs)" .
  have "list_inv st' l ((a, v) # cs)"
    using p' h o sz' nz fresh(2) by (simp add: list_inv_def)
  moreover have "next_node (m_head L) = (case cs of [] \<Rightarrow> Null | c # _ \<Rightarrow> Dyn (fst c))"
    using p by (cases cs) auto
  ultimately show ?thesis using r o h by auto
qed

lemma sound_pool_alloc: "0 \<notin> set pool \<Longrightarrow> sound_alloc (pool_alloc pool)"
  by (auto simp: sound_alloc_def pool_alloc_def find_Some_iff dest: nth_mem)

lemma list_inv_Nil_iff:
  "list_inv st l [] \<longleftrightarrow> IsEmpty l st = Some True \<and> GetSize l st = Some 0"
  by (auto simp: list_inv_def IsEmpty_def GetSize_def get_size_def unat_eq_0 split: option.splits)

lemma list_inv_iterate: "list_inv st l cs \<Longrightarrow> iterate l st = Some (Inr (map snd cs))"
  using range_values_chain [of st _ cs "[]"]
  by (auto simp: list_inv_def iterate_def begin_it_def split: option.splits)

lemma list_inv_GetSize:
  "list_inv st l cs \<Longrightarrow> \<exists>n. GetSize l st = Some n \<and> unat n = length cs"
  by (auto simp: list_inv_def GetSize_def get_size_def split: option.splits)

lemma PushFront_each_result:
  assumes "sound_alloc new" and "list_inv st l cs"
  shows "\<exists>st' ds.
           (PushFront_each new l vs st = Inr st' \<and> map snd ds = rev vs \<or>
            PushFront_each new l vs st = Inl (BadAlloc st') \<and> new (heap st') = None \<and>
              (\<exists>k < length vs. map snd ds = rev (take k vs))) \<and>
           list_inv st' l (ds @ cs) \<and>
           (\<forall>l'. l' \<noteq> l \<longrightarrow> objs st' l' = objs st l') \<and>
           (\<forall>c \<in> set ds. heap st (fst c) = None) \<and>
           (\<forall>b. b \<notin> fst ` set ds \<longrightarrow> heap st' b = heap st b)"
  using assms(2)
proof (induction vs arbitrary: st cs)
  case Nil
  then show ?case by (intro exI [of _ st] exI [of _ "[]"]) simp
next
  case (Cons v vs)
  show ?case
  proof (cases "new (heap st)")
    case None
    then have "PushFront_each new l (v # vs) st = Inl (BadAlloc st)"
      by (simp add: PushFront_throws)
    with Cons.prems None show ?thesis
      by (intro exI [of _ st] exI [of _ "[]"]) auto
  next
    case (Some a)
    with assms(1) have fresh: "heap st a = None" "a \<noteq> 0"
      by (auto simp: sound_alloc_def)
    from PushFront_list_inv [of st l cs new a v, OF Cons.prems Some fresh] obtain st1 where
      r1: "PushFront new l v st = Inr st1" and inv1: "list_inv st1 l ((a, v) # cs)"
      and o1: "\<forall>l'. l' \<noteq> l \<longrightarrow> objs st1 l' = objs st l'"
      and h1: "heap st1 = (heap st)(a \<mapsto> \<lparr>node_value = v, next_node =
              (case cs of [] \<Rightarrow> Null | c # x \<Rightarrow> Dyn (fst c))\<rparr>)"
      by blast
    from Cons.IH [OF inv1] obtain st' ds where
      r: "PushFront_each new l vs st1 = Inr st' \<and> map snd ds = rev vs \<or>
          PushFront_each new l vs st1 = Inl (BadAlloc st') \<and> new (heap st') = None \<and>
            (\<exists>k < length vs. map snd ds = rev (take k vs))"
      and inv': "list_inv st' l (ds @ (a, v) # cs)"
      and o': "\<forall>l'. l' \<noteq> l \<longrightarrow> objs st' l' = objs st1 l'"
      and f': "\<forall>c \<in> set ds. heap st1 (fst c) = None"
      and k': "\<forall>b. b \<notin> fst ` set ds \<longrightarrow> heap st' b = heap st1 b"
      by blast
    let ?ds = "ds @ [(a, v)]"
    have res: "PushFront_each new l (v # vs) st = Inr st' \<and> map snd ?ds = rev (v # vs) \<or>
            PushFront_each new l (v # vs) st = Inl (BadAlloc st') \<and> new (heap st') = None \<and>
              (\<exists>k < length (v # vs). map snd ?ds = rev (take k (v # vs)))"
    proof -
      from r show ?thesis
      proof
        assume "PushFront_each new l vs st1 = Inr st' \<and> map snd ds = rev vs"
        with r1 show ?thesis by simp
      next
        assume "PushFront_each new l vs st1 = Inl (BadAlloc st') \<and> new (heap st') = None \<and>
            (\<exists>k < length vs. map snd ds = rev (take k vs))"
        then obtain k where "PushFront_each new l vs st1 = Inl (BadAlloc st')"
          "new (heap st') = None"
          "k < length vs" "map snd ds = rev (take k vs)" by blast
        with r1 have "PushFront_each new l (v # vs) st = Inl (BadAlloc st') \<and>
              new (heap st') = None \<and>
              Suc k < length (v # vs) \<and> map snd ?ds = rev (take (Suc k) (v # vs))"
          by simp
        then show ?thesis by blast
      qed
    qed
    have fr: "\<forall>c \<in> set ?ds. heap st (fst c) = None"
      using f' h1 fresh(1) by (auto split: if_splits)
    have kp: "\<forall>b. b \<notin> fst ` set ?ds \<longrightarrow> heap st' b = heap st b"
      using k' h1 by auto
    have ob: "\<forall>l'. l' \<noteq> l \<longrightarrow> objs st' l' = objs st l'"
      using o' o1 by simp
    from inv' have "list_inv st' l (?ds @ cs)" by simp
    with res fr kp ob show ?thesis by blast
  qed
qed

lemma can_allocateD:
  assumes "can_allocate new h n" and "distinct as" and "length as < n"
    and "\<forall>a \<in> set as. h a = None"
    and "\<forall>a. (h' a \<noteq> None) = (h a \<noteq> None \<or> a \<in> set as)"
  shows "new h' \<noteq> None"
  using assms unfolding can_allocate_def by blast

lemma pool_alloc_can_allocate:
  assumes "distinct pool" and "n \<le> length (filter (\<lambda>a. h a = None) pool)"
  shows "can_allocate (pool_alloc pool) h n"
  unfolding can_allocate_def
proof (intro allI impI)
  fix h' :: "addr \<Rightarrow> 'a Node option" and as :: "addr list"
  assume a: "distinct as \<and> length as < n \<and> (\<forall>a \<in> set as. h a = None) \<and>
        (\<forall>a. (h' a \<noteq> None) = (h a \<noteq> None \<or> a \<in> set as))"
  let ?free = "filter (\<lambda>a. h a = None) pool"
  show "pool_alloc pool h' \<noteq> None"
  proof
    assume "pool_alloc pool h' = None"
    then have used: "\<forall>x \<in> set pool. h' x \<noteq> None"
      by (simp add: pool_alloc_def find_None_iff)
    have "set ?free \<subseteq> set as"
    proof
      fix x assume x: "x \<in> set ?free"
      then have "h' x \<noteq> None" "h x = None" using used by simp_all
      with a show "x \<in> set as" by simp
    qed
    then have "card (set ?free) \<le> card (set as)" by (intro card_mono) simp_all
    moreover have "card (set ?free) = length ?free"
      by (intro distinct_card distinct_filter assms(1))
    moreover have "card (set as) \<le> length as" by (rule card_length)
    ultimately show False using a assms(2) by simp
  qed
qed

lemma PushFront_each_succeeds:
  assumes snd: "sound_alloc new" and inv: "list_inv st l cs"
    and room: "can_allocate new (heap st) (length vs)"
  shows "\<exists>st' ds. PushFront_each new l vs st = Inr st' \<and> map snd ds = rev vs \<and>
           list_inv st' l (ds @ cs) \<and>
           (\<forall>l'. l' \<noteq> l \<longrightarrow> objs st' l' = objs st l') \<and>
           (\<forall>c \<in> set ds. heap st (fst c) = None) \<and>
           (\<forall>b. b \<notin> fst ` set ds \<longrightarrow> heap st' b = heap st b)"
proof -
  from PushFront_each_result [OF snd inv, of vs] obtain st' ds where
    r: "PushFront_each new l vs st = Inr st' \<and> map snd ds = rev vs \<or>
        PushFront_each new l vs st = Inl (BadAlloc st') \<and> new (heap st') = None \<and>
          (\<exists>k < length vs. map snd ds = rev (take k vs))"
    and inv': "list_inv st' l (ds @ cs)"
    and o: "\<forall>l'. l' \<noteq> l \<longrightarrow> objs st' l' = objs st l'"
    and f: "\<forall>c \<in> set ds. heap st (fst c) = None"
    and k: "\<forall>b. b \<notin> fst ` set ds \<longrightarrow> heap st' b = heap st b"
    by blast
  have "\<not> (new (heap st') = None \<and> (\<exists>k < length vs. map snd ds = rev (take k vs)))"
  proof
    assume bad: "new (heap st') = None \<and> (\<exists>k < length vs. map snd ds = rev (take k vs))"
    then obtain j where j: "j < length vs" "map snd ds = rev (take j vs)" by blast
    from j(2) have "length (map snd ds) = length (rev (take j vs))" by simp
    with j(1) have len: "length (map fst ds) < length vs" by simp
    from inv' obtain L where "objs st' l = Some L"
      "path (heap st') (next_node (m_head L)) (ds @ cs) Null"
      by (auto simp: list_inv_def split: option.splits)
    from chain_distinct [OF this(2)] have dist: "distinct (map fst ds)" by simp
    have fr: "\<forall>a \<in> set (map fst ds). heap st a = None" using f by simp
    have dom: "\<forall>a. (heap st' a \<noteq> None) = (heap st a \<noteq> None \<or> a \<in> set (map fst ds))"
    proof
      fix a
      show "(heap st' a \<noteq> None) = (heap st a \<noteq> None \<or> a \<in> set (map fst ds))"
      proof (cases "a \<in> fst ` set ds")
        case True
        then have "a \<in> fst ` set (ds @ cs)" by auto
        from list_inv_dom [OF inv' this] True show ?thesis by simp
      next
        case False
        with k show ?thesis by simp
      qed
    qed
    from can_allocateD [OF room dist len fr dom] bad show False by simp
  qed
  with r have "PushFront_each new l vs st = Inr st'" "map snd ds = rev vs" by blast+
  with inv' o f k show ?thesis by blast
qed

text \<open>
  Claim C2. Starting from an empty list and calling \<^verbatim>\<open>PushFront(v1)\<close>, ..., \<^verbatim>\<open>PushFront(vn)\<close>
  in that order, with an allocator that has room for n nodes, yields a list whose
  iteration from \<^verbatim>\<open>begin()\<close> to \<^verbatim>\<open>end()\<close> visits vn, ..., v1 and whose \<^verbatim>\<open>GetSize()\<close> is n.
  No call throws, the run has no undefined behaviour and the iteration terminates.
\<close>

theorem PushFront_sequence:
  assumes "sound_alloc new"
    and "IsEmpty l st = Some True" and "GetSize l st = Some 0"
    and "can_allocate new (heap st) (length vs)"
  shows "\<exists>st' n. PushFront_each new l vs st = Inr st' \<and>
           iterate l st' = Some (Inr (rev vs)) \<and>
           GetSize l st' = Some n \<and> unat n = length vs"
proof -
  from assms(2,3) have "list_inv st l []" by (simp add: list_inv_Nil_iff)
  from PushFront_each_succeeds [OF assms(1) this assms(4)]
  obtain st' ds where r: "PushFront_each new l vs st = Inr st'" "map snd ds = rev vs"
    and inv: "list_inv st' l ds"
    by auto
  from r(2) have "length ds = length vs" by (metis length_map length_rev)
  with list_inv_iterate [OF inv] list_inv_GetSize [OF inv] r show ?thesis by auto
qed

theorem PushFront_sequence_witness:
  "sound_alloc (pool_alloc [1, 2, 3] :: nat allocator) \<and>
   IsEmpty 0 (member_init (0::nat) 0 no_lists) = Some True \<and>
   GetSize 0 (member_init (0::nat) 0 no_lists) = Some 0 \<and>
   can_allocate (pool_alloc [1, 2, 3] :: nat allocator)
     (heap (member_init (0::nat) 0 no_lists)) (length [10 :: nat, 20, 30]) \<and>
   (\<exists>st' n. PushFront_each (pool_alloc [1, 2, 3]) 0 [10, 20, 30] (member_init (0::nat) 0 no_lists) = Inr st' \<and>
      iterate 0 st' = Some (Inr (rev [10, 20, 30])) \<and>
      GetSize 0 st' = Some n \<and> unat n = length [10 :: nat, 20, 30])"
proof -
  let ?st = "member_init (0::nat) 0 no_lists"
  have a: "sound_alloc (pool_alloc [1, 2, 3] :: nat allocator)"
    by (rule sound_pool_alloc) simp
  have b: "IsEmpty 0 ?st = Some True" "GetSize 0 ?st = Some 0"
    by (simp_all add: IsEmpty_def GetSize_def get_size_def member_init_def no_lists_def)
  have c: "can_allocate (pool_alloc [1, 2, 3] :: nat allocator) (heap ?st)
      (length [10 :: nat, 20, 30])"
    by (rule pool_alloc_can_allocate) (simp_all add: member_init_def no_lists_def)
  from PushFront_sequence [OF a b c] a b c show ?thesis by blast
qed

section \<open>Swapping\<close>

lemma two_lists_inv:
  "list_inv two_lists 0 [(1, 10), (2, 20)]" "list_inv two_lists 1 [(3, 30)]"
  by (simp_all add: list_inv_def two_lists_def)

lemma swap_self_effect:
  assumes "objs st l = Some L"
  shows "swap l l st = Inr st"
proof -
  have "(objs st)(l \<mapsto> L) = objs st" using assms by (simp add: fun_upd_idem)
  then show ?thesis using assms
    by (simp add: swap_def swap_next_def swap_size_def node_at_def set_next_def
        get_size_def set_size_def)
qed

lemma swap_effect:
  assumes "objs st a = Some A" and "objs st b = Some B" and "a \<noteq> b"
  shows "\<exists>st'. swap a b st = Inr st' \<and> heap st' = heap st \<and>
           objs st' = (objs st)
             (a \<mapsto> A\<lparr>m_head := (m_head A)\<lparr>next_node := next_node (m_head B)\<rparr>,
                       m_size := m_size B\<rparr>,
              b \<mapsto> B\<lparr>m_head := (m_head B)\<lparr>next_node := next_node (m_head A)\<rparr>,
                       m_size := m_size A\<rparr>)"
  using assms
  by (auto simp: swap_def swap_next_def swap_size_def node_at_def set_next_def
      get_size_def set_size_def fun_upd_twist)

lemma swap_list_inv:
  assumes "list_inv st a cs" and "list_inv st b ds"
  shows "\<exists>st'. swap a b st = Inr st' \<and> list_inv st' a ds \<and> list_inv st' b cs \<and>
           heap st' = heap st \<and> (\<forall>l. l \<noteq> a \<longrightarrow> l \<noteq> b \<longrightarrow> objs st' l = objs st l)"
proof (cases "a = b")
  case True
  with assms have "cs = ds" by (auto dest: list_inv_unique)
  moreover from assms(1) obtain A where "objs st a = Some A"
    by (auto simp: list_inv_def split: option.splits)
  ultimately show ?thesis using True assms swap_self_effect [of st a A] by simp
next
  case False
  from assms obtain A B where AB: "objs st a = Some A" "objs st b = Some B"
    by (auto simp: list_inv_def split: option.splits)
  from swap_effect [OF AB False] obtain st' where
    st': "swap a b st = Inr st'" "heap st' = heap st"
    "objs st' = (objs st)
             (a \<mapsto> A\<lparr>m_head := (m_head A)\<lparr>next_node := next_node (m_head B)\<rparr>,
                       m_size := m_size B\<rparr>,
              b \<mapsto> B\<lparr>m_head := (m_head B)\<lparr>next_node := next_node (m_head A)\<rparr>,
                       m_size := m_size A\<rparr>)"
    by blast
  with assms AB False show ?thesis
    by (auto simp: list_inv_def)
qed

text \<open>
  Claim C9. For two lists A and B, \<^verbatim>\<open>A.swap(B)\<close> and the free \<^verbatim>\<open>swap(A, B)\<close> exchange the
  contents: afterwards A iterates as B did and has the size B had, and the other way
  round. Nothing else changes: the heap is the same, node for node (A now owns the very
  nodes B owned), and every other list object is untouched.
\<close>

theorem swap_exchanges:
  assumes "list_inv st a cs" and "list_inv st b ds"
  shows "\<exists>st'. swap a b st = Inr st' \<and> swap_free a b st = Inr st' \<and>
           iterate a st' = iterate b st \<and> iterate b st' = iterate a st \<and>
           GetSize a st' = GetSize b st \<and> GetSize b st' = GetSize a st \<and>
           list_inv st' a ds \<and> list_inv st' b cs \<and>
           heap st' = heap st \<and> (\<forall>l. l \<noteq> a \<longrightarrow> l \<noteq> b \<longrightarrow> objs st' l = objs st l)"
proof -
  from swap_list_inv [OF assms] obtain st' where
    st': "swap a b st = Inr st'" "list_inv st' a ds" "list_inv st' b cs"
      "heap st' = heap st" "\<forall>l. l \<noteq> a \<longrightarrow> l \<noteq> b \<longrightarrow> objs st' l = objs st l"
    by blast
  have "iterate a st' = iterate b st" "iterate b st' = iterate a st"
    using assms st'(2,3) by (simp_all add: list_inv_iterate)
  moreover have "GetSize a st' = GetSize b st" "GetSize b st' = GetSize a st"
    using assms st'(2,3) list_inv_GetSize
    by (auto simp: list_inv_def GetSize_def get_size_def word_unat_eq_iff split: option.splits)
  ultimately show ?thesis using st' by (simp add: swap_free_def)
qed

theorem swap_exchanges_witness:
  "list_inv two_lists 0 [(1, 10), (2, 20)] \<and> list_inv two_lists 1 [(3, 30)] \<and>
   (\<exists>st'. swap 0 1 two_lists = Inr st' \<and> swap_free 0 1 two_lists = Inr st' \<and>
           iterate 0 st' = iterate 1 two_lists \<and> iterate 1 st' = iterate 0 two_lists \<and>
           GetSize 0 st' = GetSize 1 two_lists \<and> GetSize 1 st' = GetSize 0 two_lists \<and>
           list_inv st' 0 [(3, 30)] \<and> list_inv st' 1 [(1, 10), (2, 20)] \<and>
           heap st' = heap two_lists \<and>
           (\<forall>l. l \<noteq> 0 \<longrightarrow> l \<noteq> 1 \<longrightarrow> objs st' l = objs two_lists l))"
  using swap_exchanges [OF two_lists_inv] two_lists_inv by simp

text \<open>
  Claim C10. Swapping a list with itself, by \<^verbatim>\<open>L.swap(L)\<close> or by the free \<^verbatim>\<open>swap(L, L)\<close>,
  leaves the whole store as it was, so L has the same size and the same elements.
\<close>

theorem swap_with_itself:
  assumes "list_inv st l cs"
  shows "swap l l st = Inr st \<and> swap_free l l st = Inr st"
proof -
  from assms obtain L where "objs st l = Some L"
    by (auto simp: list_inv_def split: option.splits)
  then show ?thesis by (simp add: swap_free_def swap_self_effect)
qed

theorem swap_with_itself_witness:
  "list_inv two_lists 0 [(1, 10), (2, 20)] \<and>
   swap 0 0 two_lists = Inr two_lists \<and> swap_free 0 0 two_lists = Inr two_lists"
  using swap_with_itself [OF two_lists_inv(1)] two_lists_inv(1) by simp

section \<open>Clearing\<close>

lemma path_cong:
  "\<forall>a \<in> fst ` set cs. h' a = h a \<Longrightarrow> path h' p cs q = path h p cs q"
  by (induction cs arbitrary: p) (auto split: option.splits)

lemma Clear_loop_chain:
  assumes "objs st l = Some L" and "path (heap st) (next_node (m_head L)) cs Null"
  shows "\<exists>st'. Clear_loop l (next_node (m_head L)) st = Some (Inr st') \<and>
           objs st' = (objs st)(l \<mapsto> L\<lparr>m_head := (m_head L)\<lparr>next_node := Null\<rparr>\<rparr>) \<and>
           heap st' = (\<lambda>a. if a \<in> fst ` set cs then None else heap st a)"
  using assms
proof (induction cs arbitrary: st L)
  case Nil
  then have nx: "next_node (m_head L) = Null" by simp
  have "(objs st)(l \<mapsto> L\<lparr>m_head := (m_head L)\<lparr>next_node := Null\<rparr>\<rparr>) = objs st"
    using Nil.prems(1) nx [symmetric] by (simp add: fun_upd_idem)
  moreover have "Clear_loop l (next_node (m_head L)) st = Some (Inr st)"
    using Nil.prems(1) nx by (subst Clear_loop.simps) (simp add: IsEmpty_def)
  ultimately show ?case by simp
next
  case (Cons c cs)
  obtain a x where c: "c = (a, x)" by (cases c)
  with Cons.prems obtain n where n: "next_node (m_head L) = Dyn a" "heap st a = Some n"
    "node_value n = x" "path (heap st) (next_node n) cs Null"
    by (auto split: option.splits)
  define L1 where "L1 = L\<lparr>m_head := (m_head L)\<lparr>next_node := next_node n\<rparr>\<rparr>"
  define st2 where "st2 = st\<lparr>objs := (objs st)(l \<mapsto> L1), heap := (heap st)(a := None)\<rparr>"
  have unfold: "Clear_loop l (next_node (m_head L)) st = Clear_loop l (next_node (m_head L1)) st2"
    using Cons.prems(1) n(1,2)
    by (subst Clear_loop.simps)
      (simp add: IsEmpty_def node_at_def set_next_def delete_node_def L1_def st2_def)
  have notin: "a \<notin> fst ` set cs" by (rule chain_head_fresh [OF n(2,4)])
  have o2: "objs st2 l = Some L1" by (simp add: st2_def)
  have p2: "path (heap st2) (next_node (m_head L1)) cs Null"
    using n(4) notin by (simp add: st2_def L1_def path_upd_other)
  from Cons.IH [OF o2 p2] obtain st' where
    st': "Clear_loop l (next_node (m_head L1)) st2 = Some (Inr st')"
    "objs st' = (objs st2)(l \<mapsto> L1\<lparr>m_head := (m_head L1)\<lparr>next_node := Null\<rparr>\<rparr>)"
    "heap st' = (\<lambda>b. if b \<in> fst ` set cs then None else heap st2 b)"
    by blast
  have o: "objs st' = (objs st)(l \<mapsto> L\<lparr>m_head := (m_head L)\<lparr>next_node := Null\<rparr>\<rparr>)"
    using st'(2) by (simp add: st2_def L1_def)
  have h: "heap st' = (\<lambda>b. if b \<in> fst ` set (c # cs) then None else heap st b)"
    using st'(3) c by (auto simp: st2_def fun_eq_iff)
  have r: "Clear_loop l (next_node (m_head L)) st = Some (Inr st')"
    using unfold st'(1) by simp
  from r o h show ?case by blast
qed

lemma Clear_list_inv:
  assumes "list_inv st l cs"
  shows "\<exists>st'. Clear l st = Some (Inr st') \<and> list_inv st' l [] \<and>
           (\<forall>l'. l' \<noteq> l \<longrightarrow> objs st' l' = objs st l') \<and>
           heap st' = (\<lambda>a. if a \<in> fst ` set cs then None else heap st a)"
proof -
  from assms obtain L where L: "objs st l = Some L"
    and p: "path (heap st) (next_node (m_head L)) cs Null"
    by (auto simp: list_inv_def split: option.splits)
  from Clear_loop_chain [OF L p] obtain st1 where
    st1: "Clear_loop l (next_node (m_head L)) st = Some (Inr st1)"
    "objs st1 = (objs st)(l \<mapsto> L\<lparr>m_head := (m_head L)\<lparr>next_node := Null\<rparr>\<rparr>)"
    "heap st1 = (\<lambda>a. if a \<in> fst ` set cs then None else heap st a)"
    by blast
  then show ?thesis using L
    by (simp add: Clear_def node_at_def set_size_def list_inv_def)
qed

text \<open>
  Claim C8. For a list in a consistent state, \<^verbatim>\<open>IsEmpty()\<close> is true iff \<^verbatim>\<open>GetSize()\<close> is 0,
  iff the head link is null (\<^verbatim>\<open>begin() == end()\<close>), iff the list has no nodes. Whatever the
  list held, \<^verbatim>\<open>Clear()\<close> terminates without undefined behaviour and afterwards
  \<^verbatim>\<open>IsEmpty()\<close> is true and \<^verbatim>\<open>GetSize()\<close> is 0.
\<close>

theorem empty_iff_size_zero_and_clear:
  assumes "list_inv st l cs"
  shows "(\<exists>e n. IsEmpty l st = Some e \<and> GetSize l st = Some n \<and>
            (e \<longleftrightarrow> n = 0) \<and> (e \<longleftrightarrow> begin_it l st = Some end_it) \<and>
            (e \<longleftrightarrow> cs = [])) \<and>
         (\<exists>st'. Clear l st = Some (Inr st') \<and> IsEmpty l st' = Some True \<and>
            GetSize l st' = Some 0)"
proof -
  from assms obtain L where L: "objs st l = Some L"
    and p: "path (heap st) (next_node (m_head L)) cs Null"
    and sz: "unat (m_size L) = length cs"
    by (auto simp: list_inv_def split: option.splits)
  have a: "next_node (m_head L) = Null \<longleftrightarrow> cs = []"
    using p by (cases cs) (auto simp: path_Null_start)
  have b: "m_size L = 0 \<longleftrightarrow> cs = []"
    using sz by (auto simp: unat_eq_0 [symmetric])
  from Clear_list_inv [OF assms] obtain st' where
    "Clear l st = Some (Inr st')" "list_inv st' l []" by blast
  then show ?thesis using L a b
    by (auto simp: IsEmpty_def GetSize_def get_size_def begin_it_def end_it_def
        list_inv_Nil_iff)
qed

theorem empty_iff_size_zero_and_clear_witness:
  "list_inv two_lists 0 [(1, 10), (2, 20)] \<and>
   IsEmpty 0 two_lists = Some False \<and> GetSize 0 two_lists = Some 2 \<and>
   (\<exists>st'. Clear 0 two_lists = Some (Inr st') \<and> IsEmpty 0 st' = Some True \<and>
            GetSize 0 st' = Some 0)"
proof -
  have "IsEmpty 0 two_lists = Some False" "GetSize 0 two_lists = Some 2"
    by (simp_all add: IsEmpty_def GetSize_def get_size_def two_lists_def)
  with empty_iff_size_zero_and_clear [OF two_lists_inv(1)] two_lists_inv(1)
  show ?thesis by blast
qed

section \<open>Erasing and inserting after a position\<close>

lemma path_start: "path h p cs Null \<Longrightarrow> p = chain_start cs"
  by (cases cs) (auto simp: chain_start_def)

lemma EraseAfter_empty:
  assumes "objs st l = Some L" and "next_node (m_head L) = Null"
  shows "EraseAfter l (Sentinel l) st = Inr (Null, st)"
  using assms by (simp add: EraseAfter_def IsEmpty_def node_at_def)

lemma EraseAfter_front_effect:
  assumes "objs st l = Some L" and "next_node (m_head L) = Dyn a" and "heap st a = Some na"
  shows "\<exists>st'. EraseAfter l (Sentinel l) st = Inr (next_node na, st') \<and>
           objs st' = (objs st)(l \<mapsto> L\<lparr>m_head := (m_head L)\<lparr>next_node := next_node na\<rparr>,
                                         m_size := m_size L - 1\<rparr>) \<and>
           heap st' = (heap st)(a := None)"
  using assms
  by (simp add: EraseAfter_def IsEmpty_def node_at_def set_next_def delete_node_def
      get_size_def set_size_def)

lemma EraseAfter_mid_effect:
  assumes "objs st l = Some L" and "next_node (m_head L) \<noteq> Null"
    and "heap st b = Some nb" and "next_node nb = Dyn a" and "a \<noteq> b"
    and "heap st a = Some na"
  shows "\<exists>st'. EraseAfter l (Dyn b) st = Inr (next_node na, st') \<and>
           objs st' = (objs st)(l \<mapsto> L\<lparr>m_size := m_size L - 1\<rparr>) \<and>
           heap st' = (heap st)(b \<mapsto> nb\<lparr>next_node := next_node na\<rparr>, a := None)"
  using assms
  by (simp add: EraseAfter_def IsEmpty_def node_at_def set_next_def delete_node_def
      get_size_def set_size_def)

lemma PopFront_empty:
  assumes "objs st l = Some L" and "next_node (m_head L) = Null"
  shows "PopFront l st = Inr st"
  using assms by (simp add: PopFront_def IsEmpty_def)

lemma PopFront_effect:
  assumes "objs st l = Some L" and "next_node (m_head L) = Dyn a" and "heap st a = Some na"
  shows "\<exists>st'. PopFront l st = Inr st' \<and>
           objs st' = (objs st)(l \<mapsto> L\<lparr>m_head := (m_head L)\<lparr>next_node := next_node na\<rparr>,
                                         m_size := m_size L - 1\<rparr>) \<and>
           heap st' = (heap st)(a := None)"
  using assms
  by (simp add: PopFront_def IsEmpty_def node_at_def set_next_def delete_node_def
      get_size_def set_size_def)

lemma InsertAfter_throws:
  "new (heap st) = None \<Longrightarrow> InsertAfter new l pos v st = Inl (BadAlloc st)"
  by (simp add: InsertAfter_def)

lemma InsertAfter_front_effect:
  assumes "new (heap st) = Some a" and "objs st l = Some L"
  shows "\<exists>st'. InsertAfter new l (Sentinel l) v st = Inr (Dyn a, st') \<and>
           objs st' = (objs st)(l \<mapsto> L\<lparr>m_head := (m_head L)\<lparr>next_node := Dyn a\<rparr>,
                                         m_size := m_size L + 1\<rparr>) \<and>
           heap st' = (heap st)(a \<mapsto> \<lparr>node_value = v, next_node = next_node (m_head L)\<rparr>)"
  using assms
  by (simp add: InsertAfter_def node_at_def set_next_def get_size_def set_size_def)

lemma InsertAfter_mid_effect:
  assumes "new (heap st) = Some a" and "objs st l = Some L"
    and "heap st b = Some nb" and "a \<noteq> b"
  shows "\<exists>st'. InsertAfter new l (Dyn b) v st = Inr (Dyn a, st') \<and>
           objs st' = (objs st)(l \<mapsto> L\<lparr>m_size := m_size L + 1\<rparr>) \<and>
           heap st' = (heap st)(a \<mapsto> \<lparr>node_value = v, next_node = next_node nb\<rparr>,
                                b \<mapsto> nb\<lparr>next_node := Dyn a\<rparr>)"
  using assms
  by (simp add: InsertAfter_def node_at_def set_next_def get_size_def set_size_def)

lemma list_inv_parts:
  assumes "list_inv st l cs"
  obtains L where "objs st l = Some L" "path (heap st) (next_node (m_head L)) cs Null"
    "unat (m_size L) = length cs" "\<forall>c \<in> set cs. fst c \<noteq> 0"
  using assms by (auto simp: list_inv_def split: option.splits)

lemma list_invI:
  assumes "objs st l = Some L" and "path (heap st) (next_node (m_head L)) cs Null"
    and "unat (m_size L) = length cs" and "\<forall>c \<in> set cs. fst c \<noteq> 0"
  shows "list_inv st l cs"
  using assms by (simp add: list_inv_def)

lemma path_last_split:
  assumes "path h p (pre @ [b] @ rest) Null"
  obtains nb where "path h p pre (Dyn (fst b))" "h (fst b) = Some nb" "node_value nb = snd b"
    "path h (next_node nb) rest Null"
  using assms by (auto simp: path_append split: option.splits)

lemma EraseAfter_list_inv:
  assumes inv: "list_inv st l (pre @ c # post)"
  shows "\<exists>st'. EraseAfter l (pos_after l pre) st = Inr (chain_start post, st') \<and>
           list_inv st' l (pre @ post) \<and>
           (\<forall>l'. l' \<noteq> l \<longrightarrow> objs st' l' = objs st l') \<and>
           heap st' (fst c) = None \<and>
           (\<forall>x. x \<notin> fst ` set (pre @ c # post) \<longrightarrow> heap st' x = heap st x) \<and>
           (\<forall>x \<in> fst ` set (pre @ post). \<exists>n n'. heap st x = Some n \<and> heap st' x = Some n' \<and>
                node_value n' = node_value n)"
proof -
  from inv obtain L where L: "objs st l = Some L"
    and p: "path (heap st) (next_node (m_head L)) (pre @ c # post) Null"
    and sz: "unat (m_size L) = length (pre @ c # post)"
    and nz: "\<forall>d \<in> set (pre @ c # post). fst d \<noteq> 0"
    by (rule list_inv_parts)
  from chain_distinct [OF p] have dist: "distinct (map fst (pre @ c # post))" .
  from sz have sz': "unat (m_size L - 1) = length (pre @ post)"
    by (intro unat_dec_size) simp
  show ?thesis
  proof (cases pre rule: rev_cases)
    case Nil
    with p obtain nc where nc: "next_node (m_head L) = Dyn (fst c)"
      "heap st (fst c) = Some nc" "path (heap st) (next_node nc) post Null"
      by (auto split: option.splits)
    from EraseAfter_front_effect [OF L nc(1,2)] obtain st' where
      r: "EraseAfter l (Sentinel l) st = Inr (next_node nc, st')"
      and o: "objs st' = (objs st)(l \<mapsto> L\<lparr>m_head := (m_head L)\<lparr>next_node := next_node nc\<rparr>,
                                         m_size := m_size L - 1\<rparr>)"
      and h: "heap st' = (heap st)(fst c := None)"
      by blast
    have "fst c \<notin> fst ` set post" using dist Nil by auto
    then have p': "path (heap st') (next_node nc) post Null"
      using nc(3) h by (simp add: path_upd_other)
    have "list_inv st' l post"
      using o p' sz' nz Nil by (intro list_invI [where L = "L\<lparr>m_head := (m_head L)\<lparr>next_node := next_node nc\<rparr>,
                                         m_size := m_size L - 1\<rparr>"]) auto
    moreover have "next_node nc = chain_start post" using nc(3) by (rule path_start)
    moreover have "\<forall>x \<in> fst ` set post. \<exists>n n'. heap st x = Some n \<and> heap st' x = Some n' \<and>
                node_value n' = node_value n"
    proof
      fix x assume x: "x \<in> fst ` set post"
      with path_in_dom [OF nc(3)] obtain n where n: "heap st x = Some n" by blast
      have "x \<noteq> fst c" using x \<open>fst c \<notin> fst ` set post\<close> by blast
      then show "\<exists>n n'. heap st x = Some n \<and> heap st' x = Some n' \<and> node_value n' = node_value n"
        using n h by auto
    qed
    ultimately show ?thesis using r o h Nil by (auto simp: pos_after_def)
  next
    case (snoc pre' b)
    with p have "path (heap st) (next_node (m_head L)) (pre' @ [b] @ (c # post)) Null" by simp
    then obtain nb where nb: "path (heap st) (next_node (m_head L)) pre' (Dyn (fst b))"
      "heap st (fst b) = Some nb" "node_value nb = snd b"
      "path (heap st) (next_node nb) (c # post) Null"
      by (rule path_last_split)
    from nb(4) obtain nc where nc: "next_node nb = Dyn (fst c)"
      "heap st (fst c) = Some nc" "path (heap st) (next_node nc) post Null"
      by (auto split: option.splits)
    have ne: "next_node (m_head L) \<noteq> Null"
      using nb(1) by (cases pre') (auto simp: path_Null_start)
    have d: "fst c \<noteq> fst b" "fst b \<notin> fst ` set pre'" "fst c \<notin> fst ` set pre'"
      "fst b \<notin> fst ` set post" "fst c \<notin> fst ` set post"
      using dist snoc by auto
    from EraseAfter_mid_effect [OF L ne nb(2) nc(1) d(1) nc(2)] obtain st' where
      r: "EraseAfter l (Dyn (fst b)) st = Inr (next_node nc, st')"
      and o: "objs st' = (objs st)(l \<mapsto> L\<lparr>m_size := m_size L - 1\<rparr>)"
      and h: "heap st' = (heap st)(fst b \<mapsto> nb\<lparr>next_node := next_node nc\<rparr>, fst c := None)"
      by blast
    have p1: "path (heap st') (next_node (m_head L)) pre' (Dyn (fst b))"
      using nb(1) d(2,3) h by (simp add: path_upd_other)
    have p2: "path (heap st') (next_node nc) post Null"
      using nc(3) d(4,5) h by (simp add: path_upd_other)
    have "path (heap st') (Dyn (fst b)) (b # post) Null"
      using p2 h d(1) nb(3) by simp
    with p1 have p': "path (heap st') (next_node (m_head L)) (pre @ post) Null"
      using snoc by (auto simp: path_append)
    have "list_inv st' l (pre @ post)"
      using o p' sz' nz by (intro list_invI [where L = "L\<lparr>m_size := m_size L - 1\<rparr>"]) auto
    moreover have "next_node nc = chain_start post" using nc(3) by (rule path_start)
    moreover have "\<forall>x \<in> fst ` set (pre @ post). \<exists>n n'. heap st x = Some n \<and>
        heap st' x = Some n' \<and> node_value n' = node_value n"
    proof
      fix x assume x: "x \<in> fst ` set (pre @ post)"
      then have "x \<in> fst ` set (pre @ c # post)" by auto
      with path_in_dom [OF p] obtain n where n: "heap st x = Some n" by blast
      have "fst c \<notin> fst ` set (pre @ post)" using dist by auto
      with x have "x \<noteq> fst c" by blast
      then show "\<exists>n n'. heap st x = Some n \<and> heap st' x = Some n' \<and> node_value n' = node_value n"
        using n h nb(2) by (cases "x = fst b") auto
    qed
    ultimately show ?thesis using r o h snoc d(1) by (auto simp: pos_after_def)
  qed
qed

lemma InsertAfter_list_inv:
  assumes inv: "list_inv st l (pre @ post)" and new: "new (heap st) = Some a"
    and fresh: "heap st a = None" "a \<noteq> 0"
  shows "\<exists>st'. InsertAfter new l (pos_after l pre) v st = Inr (Dyn a, st') \<and>
           list_inv st' l (pre @ (a, v) # post) \<and>
           (\<forall>l'. l' \<noteq> l \<longrightarrow> objs st' l' = objs st l') \<and>
           (\<forall>x. x \<notin> fst ` set (pre @ post) \<longrightarrow> x \<noteq> a \<longrightarrow> heap st' x = heap st x) \<and>
           (\<forall>x \<in> fst ` set (pre @ post). \<exists>n n'. heap st x = Some n \<and> heap st' x = Some n' \<and>
                node_value n' = node_value n)"
proof -
  from inv obtain L where L: "objs st l = Some L"
    and p: "path (heap st) (next_node (m_head L)) (pre @ post) Null"
    and sz: "unat (m_size L) = length (pre @ post)"
    and nz: "\<forall>d \<in> set (pre @ post). fst d \<noteq> 0"
    by (rule list_inv_parts)
  from chain_distinct [OF p] have dist: "distinct (map fst (pre @ post))" .
  have notin: "a \<notin> fst ` set (pre @ post)"
    using path_in_dom [OF p] fresh(1) by blast
  have nz': "\<forall>d \<in> set (pre @ (a, v) # post). fst d \<noteq> 0" using nz fresh(2) by auto
  show ?thesis
  proof (cases pre rule: rev_cases)
    case Nil
    from InsertAfter_front_effect [of new st a l L v] new L obtain st' where
      r: "InsertAfter new l (Sentinel l) v st = Inr (Dyn a, st')"
      and o: "objs st' = (objs st)(l \<mapsto> L\<lparr>m_head := (m_head L)\<lparr>next_node := Dyn a\<rparr>,
                                         m_size := m_size L + 1\<rparr>)"
      and h: "heap st' = (heap st)(a \<mapsto> \<lparr>node_value = v, next_node = next_node (m_head L)\<rparr>)"
      by blast
    have "path (heap st') (next_node (m_head L)) post Null"
      using p notin h Nil by (simp add: path_upd_other)
    then have p': "path (heap st') (Dyn a) ((a, v) # post) Null" using h by simp
    from chain_length_bound [OF p'] nz' Nil have "Suc (length (pre @ post)) < 2 ^ 64" by simp
    from unat_inc_size [OF sz this] have sz': "unat (m_size L + 1) = Suc (length (pre @ post))" .
    have "list_inv st' l (pre @ (a, v) # post)"
      using o p' sz' nz' Nil
      by (intro list_invI [where L = "L\<lparr>m_head := (m_head L)\<lparr>next_node := Dyn a\<rparr>,
                                         m_size := m_size L + 1\<rparr>"]) auto
    moreover have "\<forall>x \<in> fst ` set (pre @ post). \<exists>n n'. heap st x = Some n \<and>
        heap st' x = Some n' \<and> node_value n' = node_value n"
    proof
      fix x assume x: "x \<in> fst ` set (pre @ post)"
      with path_in_dom [OF p] obtain n where n: "heap st x = Some n" by blast
      have "x \<noteq> a" using x notin by blast
      then show "\<exists>n n'. heap st x = Some n \<and> heap st' x = Some n' \<and> node_value n' = node_value n"
        using n h by auto
    qed
    ultimately show ?thesis using r o h Nil by (auto simp: pos_after_def)
  next
    case (snoc pre' b)
    with p have "path (heap st) (next_node (m_head L)) (pre' @ [b] @ post) Null" by simp
    then obtain nb where nb: "path (heap st) (next_node (m_head L)) pre' (Dyn (fst b))"
      "heap st (fst b) = Some nb" "node_value nb = snd b"
      "path (heap st) (next_node nb) post Null"
      by (rule path_last_split)
    have ab: "a \<noteq> fst b" using nb(2) fresh(1) by auto
    have d: "fst b \<notin> fst ` set pre'" "fst b \<notin> fst ` set post"
      "a \<notin> fst ` set pre'" "a \<notin> fst ` set post"
      using dist notin snoc by auto
    from InsertAfter_mid_effect [of new st a l L "fst b" nb v] new L nb(2) ab obtain st' where
      r: "InsertAfter new l (Dyn (fst b)) v st = Inr (Dyn a, st')"
      and o: "objs st' = (objs st)(l \<mapsto> L\<lparr>m_size := m_size L + 1\<rparr>)"
      and h: "heap st' = (heap st)(a \<mapsto> \<lparr>node_value = v, next_node = next_node nb\<rparr>,
                                fst b \<mapsto> nb\<lparr>next_node := Dyn a\<rparr>)"
      by blast
    have p1: "path (heap st') (next_node (m_head L)) pre' (Dyn (fst b))"
      using nb(1) d(1,3) h by (simp add: path_upd_other)
    have p2: "path (heap st') (next_node nb) post Null"
      using nb(4) d(2,4) h by (simp add: path_upd_other)
    have "path (heap st') (Dyn (fst b)) (b # (a, v) # post) Null"
      using p2 h ab nb(3) by simp
    with p1 have p': "path (heap st') (next_node (m_head L)) (pre @ (a, v) # post) Null"
      using snoc by (auto simp: path_append)
    from chain_length_bound [OF p' nz'] have "Suc (length (pre @ post)) < 2 ^ 64" by simp
    from unat_inc_size [OF sz this] have sz': "unat (m_size L + 1) = Suc (length (pre @ post))" .
    have "list_inv st' l (pre @ (a, v) # post)"
      using o p' sz' nz' by (intro list_invI [where L = "L\<lparr>m_size := m_size L + 1\<rparr>"]) auto
    moreover have "\<forall>x \<in> fst ` set (pre @ post). \<exists>n n'. heap st x = Some n \<and>
        heap st' x = Some n' \<and> node_value n' = node_value n"
    proof
      fix x assume x: "x \<in> fst ` set (pre @ post)"
      with path_in_dom [OF p] obtain n where n: "heap st x = Some n" by blast
      have "x \<noteq> a" using x notin by blast
      then show "\<exists>n n'. heap st x = Some n \<and> heap st' x = Some n' \<and> node_value n' = node_value n"
        using n h nb(2) by (cases "x = fst b") auto
    qed
    ultimately show ?thesis using r o h snoc ab by (auto simp: pos_after_def)
  qed
qed

lemma valid_pos_split:
  assumes "valid_pos l cs pos"
  shows "\<exists>pre post. cs = pre @ post \<and> pos = pos_after l pre"
proof (cases "pos = Sentinel l")
  case True
  then have "cs = [] @ cs \<and> pos = pos_after l []" by (simp add: pos_after_def)
  then show ?thesis by blast
next
  case False
  with assms obtain c where "c \<in> set cs" "pos = Dyn (fst c)"
    by (auto simp: valid_pos_def)
  then obtain ys zs where "cs = ys @ c # zs" by (auto simp: in_set_conv_decomp)
  with \<open>pos = Dyn (fst c)\<close> have "cs = (ys @ [c]) @ zs \<and> pos = pos_after l (ys @ [c])"
    by (simp add: pos_after_def)
  then show ?thesis by blast
qed

lemma has_successor_split:
  assumes "has_successor l cs pos"
  shows "\<exists>pre c post. cs = pre @ c # post \<and> pos = pos_after l pre"
proof (cases "pos = Sentinel l")
  case True
  from assms obtain c post where "cs = c # post"
    by (cases cs) (auto simp: has_successor_def)
  with True have "cs = [] @ c # post \<and> pos = pos_after l []" by (simp add: pos_after_def)
  then show ?thesis by blast
next
  case False
  with assms obtain b where b: "b \<in> set (butlast cs)" "pos = Dyn (fst b)" and ne: "cs \<noteq> []"
    by (auto simp: has_successor_def)
  then obtain ys zs where "butlast cs = ys @ b # zs" by (auto simp: in_set_conv_decomp)
  with ne have "cs = ys @ b # zs @ [last cs]"
    by (metis append_butlast_last_id append_Cons append_assoc)
  moreover obtain c post where "zs @ [last cs] = c # post" by (cases zs) auto
  ultimately have "cs = (ys @ [b]) @ c # post \<and> pos = pos_after l (ys @ [b])"
    using b(2) by (simp add: pos_after_def)
  then show ?thesis by blast
qed

lemma pos_after_next:
  assumes "list_inv st l (pre @ post)"
  shows "map_option next_node (node_at st (pos_after l pre)) = Some (chain_start post)"
proof -
  from assms obtain L where L: "objs st l = Some L"
    and p: "path (heap st) (next_node (m_head L)) (pre @ post) Null"
    by (rule list_inv_parts)
  show ?thesis
  proof (cases pre rule: rev_cases)
    case Nil
    with p have "next_node (m_head L) = chain_start post" by (simp add: path_start)
    with L Nil show ?thesis by (simp add: pos_after_def node_at_def)
  next
    case (snoc pre' b)
    with p have "path (heap st) (next_node (m_head L)) (pre' @ [b] @ post) Null" by simp
    then obtain nb where "heap st (fst b) = Some nb" "path (heap st) (next_node nb) post Null"
      by (rule path_last_split)
    with snoc show ?thesis by (simp add: pos_after_def node_at_def path_start)
  qed
qed

lemma list_inv_cell:
  assumes "list_inv st l (pre @ c # post)"
  shows "node_at st (Dyn (fst c)) = Some \<lparr>node_value = snd c, next_node = chain_start post\<rparr>"
proof -
  from assms have "list_inv st l ((pre @ [c]) @ post)" by simp
  from pos_after_next [OF this]
  have nx: "map_option next_node (node_at st (Dyn (fst c))) = Some (chain_start post)"
    by (simp add: pos_after_def)
  from assms obtain L where "objs st l = Some L"
    "path (heap st) (next_node (m_head L)) (pre @ [c] @ post) Null"
    by (auto simp: list_inv_def split: option.splits)
  from this(2) obtain n where "heap st (fst c) = Some n" "node_value n = snd c"
    by (rule path_last_split)
  with nx show ?thesis by (cases n) (auto simp: node_at_def)
qed

lemma one_empty_list_inv: "list_inv one_empty_list 0 []"
  by (simp add: one_empty_list_def list_inv_def member_init_def no_lists_def)

text \<open>
  Claim C3. In an empty list the only position that references a node is
  \<^verbatim>\<open>before_begin()\<close>, and \<^verbatim>\<open>EraseAfter\<close> at it is a no-op: the store is left as it was
  (the list still has size 0 and no elements) and the iterator returned is the successor
  of the position, the end iterator. There is no undefined behaviour.
\<close>

theorem EraseAfter_empty_list_noop:
  assumes "list_inv st l []" and "valid_pos l [] pos"
  shows "pos = before_begin l \<and> EraseAfter l pos st = Inr (end_it, st)"
proof -
  from assms(1) obtain L where "objs st l = Some L" "next_node (m_head L) = Null"
    by (auto simp: list_inv_def split: option.splits)
  moreover from assms(2) have "pos = Sentinel l" by (simp add: valid_pos_def)
  ultimately show ?thesis by (simp add: EraseAfter_empty before_begin_def end_it_def)
qed

theorem EraseAfter_empty_list_noop_witness:
  "list_inv one_empty_list 0 [] \<and> valid_pos 0 ([] :: (addr \<times> nat) list) (before_begin 0) \<and>
   EraseAfter 0 (before_begin 0) one_empty_list = Inr (end_it, one_empty_list)"
proof -
  have v: "valid_pos 0 ([] :: (addr \<times> nat) list) (before_begin 0)"
    by (simp add: valid_pos_def before_begin_def)
  from EraseAfter_empty_list_noop [OF one_empty_list_inv v] one_empty_list_inv v
  show ?thesis by simp
qed

text \<open>
  Claim C4. In a non-empty list, for a position \<open>pos\<close> that is \<^verbatim>\<open>before_begin()\<close> or a real
  element other than the last, the list splits as \<open>pre @ c # post\<close> with \<open>pos\<close> right
  behind \<open>pre\<close>, and \<^verbatim>\<open>EraseAfter(pos)\<close> removes exactly the cell \<open>c\<close>: the list becomes
  \<open>pre @ post\<close> with the same nodes in the same order, the node of \<open>c\<close> is freed,
  \<^verbatim>\<open>GetSize()\<close> goes down by exactly 1, and the iterator returned is the new successor
  of \<open>pos\<close>.
\<close>

theorem EraseAfter_removes_successor:
  assumes "list_inv st l cs" and "has_successor l cs pos"
  shows "\<exists>pre c post st' n.
           cs = pre @ c # post \<and> pos = pos_after l pre \<and>
           EraseAfter l pos st = Inr (chain_start post, st') \<and>
           list_inv st' l (pre @ post) \<and>
           iterate l st = Some (Inr (map snd pre @ snd c # map snd post)) \<and>
           iterate l st' = Some (Inr (map snd pre @ map snd post)) \<and>
           GetSize l st = Some n \<and> GetSize l st' = Some (n - 1) \<and>
           0 < unat n \<and> unat (n - 1) = unat n - 1 \<and>
           heap st' (fst c) = None \<and>
           map_option next_node (node_at st' pos) = Some (chain_start post)"
proof -
  from has_successor_split [OF assms(2)] obtain pre c post where
    cs: "cs = pre @ c # post" and pos: "pos = pos_after l pre" by blast
  from EraseAfter_list_inv [of st l pre c post] assms(1) cs obtain st' where
    r: "EraseAfter l (pos_after l pre) st = Inr (chain_start post, st')"
    and inv': "list_inv st' l (pre @ post)" and gone: "heap st' (fst c) = None"
    and o: "\<forall>l'. l' \<noteq> l \<longrightarrow> objs st' l' = objs st l'"
    by blast
  from assms(1) obtain n where n: "GetSize l st = Some n" "unat n = length cs"
    using list_inv_GetSize by blast
  from inv' obtain n' where n': "GetSize l st' = Some n'" "unat n' = length (pre @ post)"
    using list_inv_GetSize by blast
  have pos_n: "0 < unat n" using n(2) cs by simp
  have "unat (n - 1) = unat n'"
    using n(2) n'(2) cs by (simp add: unat_dec_size)
  then have eq: "n' = n - 1" by (simp add: word_unat_eq_iff)
  have dec: "unat (n - 1) = unat n - 1" using n(2) cs by (simp add: unat_dec_size)
  have it: "iterate l st = Some (Inr (map snd pre @ snd c # map snd post))"
    using list_inv_iterate [OF assms(1)] cs by simp
  have it': "iterate l st' = Some (Inr (map snd pre @ map snd post))"
    using list_inv_iterate [OF inv'] by simp
  from pos_after_next [OF inv'] pos
  have nx: "map_option next_node (node_at st' pos) = Some (chain_start post)" by simp
  from cs pos r inv' it it' n(1) n'(1) eq pos_n dec gone nx show ?thesis by blast
qed

theorem EraseAfter_removes_successor_witness:
  "list_inv two_lists 0 [(1, 10), (2, 20)] \<and> has_successor 0 [(1 :: addr, 10 :: nat), (2, 20)] (Dyn 1) \<and>
   (\<exists>st'. EraseAfter 0 (Dyn 1) two_lists = Inr (Null, st') \<and>
      list_inv st' 0 [(1, 10)] \<and> iterate 0 st' = Some (Inr [10]) \<and>
      GetSize 0 st' = Some 1 \<and> heap st' 2 = None)"
proof -
  have hs: "has_successor 0 [(1 :: addr, 10 :: nat), (2, 20)] (Dyn 1)"
    by (simp add: has_successor_def)
  from EraseAfter_removes_successor [OF two_lists_inv(1) hs]
  obtain pre c post st' n where
    w: "[(1 :: addr, 10 :: nat), (2, 20)] = pre @ c # post" "Dyn 1 = pos_after 0 pre"
       "EraseAfter 0 (Dyn 1) two_lists = Inr (chain_start post, st')"
       "list_inv st' 0 (pre @ post)"
       "iterate 0 st' = Some (Inr (map snd pre @ map snd post))"
       "GetSize 0 two_lists = Some n" "GetSize 0 st' = Some (n - 1)"
       "heap st' (fst c) = None"
    by blast
  from w(1,2) have "pre = [(1, 10)] \<and> c = (2, 20) \<and> post = []"
    by (cases pre; cases "tl pre") (auto simp: pos_after_def Cons_eq_append_conv split: if_splits)
  moreover have "GetSize 0 two_lists = Some 2"
    by (simp add: GetSize_def get_size_def two_lists_def)
  ultimately show ?thesis using w two_lists_inv(1) hs
    by (auto simp: chain_start_def)
qed

text \<open>
  Outside these positions the call is undefined: the end iterator references no node,
  and the last element has no successor to unlink.
\<close>

lemma EraseAfter_end_undefined: "EraseAfter l end_it st = Inl Undefined"
  by (simp add: EraseAfter_def node_at_def end_it_def split: option.splits)

lemma EraseAfter_last_undefined:
  assumes "list_inv st l (pre @ [c])"
  shows "EraseAfter l (Dyn (fst c)) st = Inl Undefined"
proof -
  from list_inv_cell [OF assms]
  have c: "heap st (fst c) = Some \<lparr>node_value = snd c, next_node = Null\<rparr>"
    by (simp add: node_at_def chain_start_def)
  from assms obtain L where L: "objs st l = Some L"
    "path (heap st) (next_node (m_head L)) (pre @ [c]) Null"
    by (rule list_inv_parts)
  from L(2) have "next_node (m_head L) \<noteq> Null"
    by (cases pre) (auto simp: path_Null_start)
  with L(1) c show ?thesis
    by (simp add: EraseAfter_def IsEmpty_def node_at_def)
qed

lemma three_lists_inv:
  "list_inv three_lists 0 [(1, 1), (2, 2)]"
  "list_inv three_lists 1 [(3, 1), (4, 2), (5, 3)]"
  "list_inv three_lists 2 [(6, 1), (7, 2), (8, 4)]"
  by (simp_all add: list_inv_def three_lists_def)

text \<open>
  Claim C5. For a position \<open>pos\<close> that references the sentinel or a real element of the
  list, the list splits as \<open>pre @ post\<close> with \<open>pos\<close> right behind \<open>pre\<close>, and when \<^verbatim>\<open>new\<close>
  returns the address \<open>a\<close>, \<^verbatim>\<open>InsertAfter(pos, v)\<close> puts the node at \<open>a\<close>, holding \<open>v\<close>, between
  \<open>pos\<close> and the former successor of \<open>pos\<close>: the list becomes \<open>pre @ (a, v) # post\<close>, the
  other nodes and their order are as before, \<^verbatim>\<open>GetSize()\<close> goes up by exactly 1, and the
  iterator returned is at the new node. For \<^verbatim>\<open>before_begin()\<close> the part \<open>pre\<close> is empty, so
  \<open>v\<close> is the first element of the iteration.
\<close>

theorem InsertAfter_places_value:
  assumes "sound_alloc new" and "list_inv st l cs" and "valid_pos l cs pos"
    and "new (heap st) = Some a"
  shows "\<exists>pre post st' n.
           cs = pre @ post \<and> pos = pos_after l pre \<and> (pos = before_begin l \<longrightarrow> pre = []) \<and>
           InsertAfter new l pos v st = Inr (Dyn a, st') \<and>
           list_inv st' l (pre @ (a, v) # post) \<and>
           heap st a = None \<and>
           map_option next_node (node_at st pos) = Some (chain_start post) \<and>
           map_option next_node (node_at st' pos) = Some (Dyn a) \<and>
           node_at st' (Dyn a) = Some \<lparr>node_value = v, next_node = chain_start post\<rparr> \<and>
           iterate l st = Some (Inr (map snd pre @ map snd post)) \<and>
           iterate l st' = Some (Inr (map snd pre @ v # map snd post)) \<and>
           GetSize l st = Some n \<and> GetSize l st' = Some (n + 1) \<and>
           unat (n + 1) = unat n + 1"
proof -
  from valid_pos_split [OF assms(3)] obtain pre post where
    cs: "cs = pre @ post" and pos: "pos = pos_after l pre" by blast
  have inv: "list_inv st l (pre @ post)" using assms(2) cs by simp
  note new = assms(4)
  with assms(1) have fresh: "heap st a = None" "a \<noteq> 0" by (auto simp: sound_alloc_def)
  from InsertAfter_list_inv [of st l pre post new a v, OF inv new fresh] obtain st' where
    r: "InsertAfter new l (pos_after l pre) v st = Inr (Dyn a, st')"
    and inv': "list_inv st' l (pre @ (a, v) # post)"
    by blast
  have first: "pos = before_begin l \<longrightarrow> pre = []"
    using pos by (auto simp: pos_after_def before_begin_def)
  from pos_after_next [OF inv] pos
  have nx: "map_option next_node (node_at st pos) = Some (chain_start post)" by simp
  from pos_after_next [OF inv'] pos
  have nx': "map_option next_node (node_at st' pos) = Some (Dyn a)"
    by (simp add: chain_start_def)
  from list_inv_cell [OF inv']
  have cell: "node_at st' (Dyn a) = Some \<lparr>node_value = v, next_node = chain_start post\<rparr>"
    by simp
  from list_inv_GetSize [OF inv] obtain n where
    n: "GetSize l st = Some n" "unat n = length (pre @ post)" by blast
  from list_inv_GetSize [OF inv'] obtain n' where
    n': "GetSize l st' = Some n'" "unat n' = length (pre @ (a, v) # post)" by blast
  have bound: "unat n' < 2 ^ 64" using unsigned_less [of n'] by simp
  then have "Suc (unat n) < 2 ^ 64" using n(2) n'(2) by simp
  with n(2) have inc: "unat (n + 1) = unat n + 1" by (simp add: unat_inc_size)
  with n(2) n'(2) have eq: "n' = n + 1" by (simp add: word_unat_eq_iff)
  have it: "iterate l st = Some (Inr (map snd pre @ map snd post))"
    using list_inv_iterate [OF inv] by simp
  have it': "iterate l st' = Some (Inr (map snd pre @ v # map snd post))"
    using list_inv_iterate [OF inv'] by simp
  from cs pos first r inv' fresh(1) nx nx' cell it it' n(1) n'(1) eq inc
  show ?thesis by blast
qed

theorem InsertAfter_places_value_witness:
  "sound_alloc (pool_alloc [1, 2, 3, 4] :: nat allocator) \<and>
   list_inv two_lists 0 [(1, 10), (2, 20)] \<and>
   valid_pos 0 [(1 :: addr, 10 :: nat), (2, 20)] (Dyn 1) \<and>
   (pool_alloc [1, 2, 3, 4] :: nat allocator) (heap two_lists) = Some 4 \<and>
   (\<exists>st'. InsertAfter (pool_alloc [1, 2, 3, 4]) 0 (Dyn 1) 15 two_lists = Inr (Dyn 4, st') \<and>
      iterate 0 st' = Some (Inr [10, 15, 20]) \<and> GetSize 0 st' = Some 3) \<and>
   valid_pos 0 [(1 :: addr, 10 :: nat), (2, 20)] (before_begin 0) \<and>
   (\<exists>st'. InsertAfter (pool_alloc [1, 2, 3, 4]) 0 (before_begin 0) 15 two_lists = Inr (Dyn 4, st') \<and>
      iterate 0 st' = Some (Inr [15, 10, 20]))"
proof -
  let ?new = "pool_alloc [1, 2, 3, 4] :: nat allocator"
  have a: "sound_alloc ?new" by (rule sound_pool_alloc) simp
  have v: "valid_pos 0 [(1 :: addr, 10 :: nat), (2, 20)] (Dyn 1)"
    by (simp add: valid_pos_def)
  have al: "?new (heap two_lists) = Some 4"
    by (simp add: pool_alloc_def two_lists_def)
  from InsertAfter_places_value [of ?new two_lists 0 _ "Dyn 1" 4 15, OF a two_lists_inv(1) v al]
  obtain pre post st' n where
    w: "[(1 :: addr, 10 :: nat), (2, 20)] = pre @ post" "Dyn 1 = pos_after 0 pre"
       "InsertAfter ?new 0 (Dyn 1) 15 two_lists = Inr (Dyn 4, st')"
       "iterate 0 st' = Some (Inr (map snd pre @ 15 # map snd post))"
       "GetSize 0 two_lists = Some n" "GetSize 0 st' = Some (n + 1)"
    by blast
  from w(1,2) have "pre = [(1, 10)] \<and> post = [(2, 20)]"
    by (cases pre; cases "tl pre") (auto simp: pos_after_def Cons_eq_append_conv split: if_splits)
  moreover have "GetSize 0 two_lists = Some 2"
    by (simp add: GetSize_def get_size_def two_lists_def)
  ultimately have mid: "\<exists>st'. InsertAfter ?new 0 (Dyn 1) 15 two_lists = Inr (Dyn 4, st') \<and>
      iterate 0 st' = Some (Inr [10, 15, 20]) \<and> GetSize 0 st' = Some 3"
    using w by auto
  have v0: "valid_pos 0 [(1 :: addr, 10 :: nat), (2, 20)] (before_begin 0)"
    by (simp add: valid_pos_def before_begin_def)
  from InsertAfter_places_value [of ?new two_lists 0 _ "before_begin 0" 4 15,
      OF a two_lists_inv(1) v0 al]
  obtain pre0 post0 st0 where
    w0: "[(1 :: addr, 10 :: nat), (2, 20)] = pre0 @ post0"
        "before_begin 0 = before_begin 0 \<longrightarrow> pre0 = []"
        "InsertAfter ?new 0 (before_begin 0) 15 two_lists = Inr (Dyn 4, st0)"
        "iterate 0 st0 = Some (Inr (map snd pre0 @ 15 # map snd post0))"
    by blast
  from w0(1,2) have "pre0 = []" "post0 = [(1, 10), (2, 20)]" by simp_all
  with w0(3,4) have front: "\<exists>st'. InsertAfter ?new 0 (before_begin 0) 15 two_lists = Inr (Dyn 4, st') \<and>
      iterate 0 st' = Some (Inr [15, 10, 20])" by auto
  from a two_lists_inv(1) v al mid v0 front show ?thesis by blast
qed

section \<open>Comparing lists\<close>

lemma std_equal_chains:
  assumes "path (heap st) p cs Null" and "path (heap st) q ds Null"
    and "length cs = length ds"
  shows "std_equal eq st p Null q = Some (Inr (list_all2 eq (map snd cs) (map snd ds)))"
  using assms
proof (induction cs arbitrary: p q ds)
  case Nil
  then show ?case by (subst std_equal.simps) simp
next
  case (Cons c cs)
  then obtain d ds' where ds: "ds = d # ds'" by (cases ds) auto
  from Cons.prems(1) obtain n1 where n1: "p = Dyn (fst c)" "heap st (fst c) = Some n1"
    "node_value n1 = snd c" "path (heap st) (next_node n1) cs Null"
    by (auto split: option.splits)
  from Cons.prems(2) ds obtain n2 where n2: "q = Dyn (fst d)" "heap st (fst d) = Some n2"
    "node_value n2 = snd d" "path (heap st) (next_node n2) ds' Null"
    by (auto split: option.splits)
  from Cons.prems(3) ds have len: "length cs = length ds'" by simp
  from Cons.IH [OF n1(4) n2(4) len] n1(1-3) n2(1-3) ds show ?case
    by (subst std_equal.simps) (simp add: node_at_def)
qed

lemma std_lexicographical_compare_chains:
  assumes "path (heap st) p cs Null" and "path (heap st) q ds Null"
  shows "std_lexicographical_compare lt st p Null q Null =
           Some (Inr (lex_less lt (map snd cs) (map snd ds)))"
  using assms
proof (induction cs arbitrary: p q ds)
  case Nil
  then show ?case
    by (subst std_lexicographical_compare.simps) (cases ds; auto)
next
  case (Cons c cs)
  from Cons.prems(1) obtain n1 where n1: "p = Dyn (fst c)" "heap st (fst c) = Some n1"
    "node_value n1 = snd c" "path (heap st) (next_node n1) cs Null"
    by (auto split: option.splits)
  show ?case
  proof (cases ds)
    case Nil
    with Cons.prems(2) n1(1) show ?thesis
      by (subst std_lexicographical_compare.simps) simp
  next
    case (Cons d ds')
    with Cons.prems(2) obtain n2 where n2: "q = Dyn (fst d)" "heap st (fst d) = Some n2"
      "node_value n2 = snd d" "path (heap st) (next_node n2) ds' Null"
      by (auto split: option.splits)
    from Cons.IH [OF n1(4) n2(4)] n1(1-3) n2(1-3) Cons show ?thesis
      by (subst std_lexicographical_compare.simps) (simp add: node_at_def)
  qed
qed

lemma lex_less_prefix: "lex_less lt xs (xs @ y # ys)"
  by (induction xs) auto

lemma op_eq_lists:
  assumes "list_inv st a cs" and "list_inv st b ds"
  shows "op_eq eq a b st =
           Some (Inr (length cs = length ds \<and> list_all2 eq (map snd cs) (map snd ds)))"
proof -
  from assms(1) obtain A where A: "objs st a = Some A"
    "path (heap st) (next_node (m_head A)) cs Null" "unat (m_size A) = length cs"
    by (rule list_inv_parts)
  from assms(2) obtain B where B: "objs st b = Some B"
    "path (heap st) (next_node (m_head B)) ds Null" "unat (m_size B) = length ds"
    by (rule list_inv_parts)
  have sz: "m_size A = m_size B \<longleftrightarrow> length cs = length ds"
    using A(3) B(3) by (auto simp: word_unat_eq_iff)
  show ?thesis
  proof (cases "length cs = length ds")
    case True
    from std_equal_chains [OF A(2) B(2) True, of eq] A(1) B(1) sz True show ?thesis
      by (simp add: op_eq_def GetSize_def get_size_def begin_it_def end_it_def)
  next
    case False
    with A(1) B(1) sz show ?thesis
      by (simp add: op_eq_def GetSize_def get_size_def)
  qed
qed

lemma op_lt_lists:
  assumes "list_inv st a cs" and "list_inv st b ds"
  shows "op_lt lt a b st = Some (Inr (lex_less lt (map snd cs) (map snd ds)))"
proof -
  from assms(1) obtain A where A: "objs st a = Some A"
    "path (heap st) (next_node (m_head A)) cs Null"
    by (rule list_inv_parts)
  from assms(2) obtain B where B: "objs st b = Some B"
    "path (heap st) (next_node (m_head B)) ds Null"
    by (rule list_inv_parts)
  from std_lexicographical_compare_chains [OF A(2) B(2), of lt] A(1) B(1) show ?thesis
    by (simp add: op_lt_def begin_it_def end_it_def)
qed

text \<open>
  Claim C7. For two lists in consistent states, \<^verbatim>\<open>==\<close> is true iff they have the same size
  and are elementwise equal in iteration order, \<^verbatim>\<open>!=\<close> is its negation, and \<^verbatim>\<open><\<close>, \<^verbatim>\<open><=\<close>,
  \<^verbatim>\<open>>\<close>, \<^verbatim>\<open>>=\<close> are the lexicographical comparison of the element sequences and its
  mirror images; a strict prefix is less. The comparisons terminate without undefined
  behaviour.
\<close>

theorem comparison_operators:
  assumes "list_inv st a cs" and "list_inv st b ds"
  shows "op_eq eq a b st =
           Some (Inr (length cs = length ds \<and> list_all2 eq (map snd cs) (map snd ds))) \<and>
         op_ne eq a b st =
           Some (Inr (\<not> (length cs = length ds \<and> list_all2 eq (map snd cs) (map snd ds)))) \<and>
         op_lt lt a b st = Some (Inr (lex_less lt (map snd cs) (map snd ds))) \<and>
         op_le lt a b st = Some (Inr (\<not> lex_less lt (map snd ds) (map snd cs))) \<and>
         op_gt lt a b st = Some (Inr (lex_less lt (map snd ds) (map snd cs))) \<and>
         op_ge lt a b st = Some (Inr (\<not> lex_less lt (map snd cs) (map snd ds))) \<and>
         (\<forall>y ys. map snd ds = map snd cs @ y # ys \<longrightarrow> op_lt lt a b st = Some (Inr True))"
  using op_eq_lists [OF assms, of eq] op_lt_lists [OF assms, of lt]
    op_lt_lists [OF assms(2,1), of lt]
  by (auto simp: op_ne_def op_le_def op_gt_def op_ge_def negate_def lex_less_prefix)

theorem comparison_operators_witness:
  "list_inv three_lists 0 [(1, 1), (2, 2)] \<and>
   list_inv three_lists 1 [(3, 1), (4, 2), (5, 3)] \<and>
   list_inv three_lists 2 [(6, 1), (7, 2), (8, 4)] \<and>
   op_eq (=) 1 1 three_lists = Some (Inr True) \<and>
   op_eq (=) 1 0 three_lists = Some (Inr False) \<and>
   op_lt (<) 1 2 three_lists = Some (Inr True) \<and>
   map snd [(3 :: addr, 1 :: nat), (4, 2), (5, 3)] = map snd [(1 :: addr, 1 :: nat), (2, 2)] @ 3 # [] \<and>
   op_lt (<) 0 1 three_lists = Some (Inr True)"
  using comparison_operators [OF three_lists_inv(2,2), of "(=)" "(<)"]
    comparison_operators [OF three_lists_inv(2,1), of "(=)" "(<)"]
    comparison_operators [OF three_lists_inv(2,3), of "(=)" "(<)"]
    comparison_operators [OF three_lists_inv(1,2), of "(=)" "(<)"]
    three_lists_inv
  by simp

section \<open>Construction, copying and assignment\<close>

lemma state_eqI:
  fixes st st' :: "'a state"
  assumes "objs st' = objs st" and "heap st' = heap st"
  shows "st' = st"
  using assms by simp

lemma member_init_list_inv:
  "list_inv (member_init dflt l st) l []"
  by (simp add: member_init_def list_inv_def)

lemma member_init_other:
  "l' \<noteq> l \<Longrightarrow> list_inv (member_init dflt l st) l' cs = list_inv st l' cs"
  by (simp add: member_init_def list_inv_def split: option.splits)

lemma member_init_fields:
  "objs (member_init dflt l st) =
     (objs st)(l \<mapsto> \<lparr>m_head = \<lparr>node_value = dflt, next_node = Null\<rparr>, m_size = 0\<rparr>)"
  "heap (member_init dflt l st) = heap st"
  by (simp_all add: member_init_def)

lemma list_inv_exists: "list_inv st l cs \<Longrightarrow> objs st l \<noteq> None"
  by (auto simp: list_inv_def split: option.splits)

lemma destroy_list_inv:
  assumes "list_inv st l cs"
  shows "\<exists>st'. destroy l st = Some (Inr st') \<and> objs st' = (objs st)(l := None) \<and>
           heap st' = (\<lambda>a. if a \<in> fst ` set cs then None else heap st a)"
proof -
  from Clear_list_inv [OF assms] obtain st1 where
    c: "Clear l st = Some (Inr st1)" and o: "\<forall>l'. l' \<noteq> l \<longrightarrow> objs st1 l' = objs st l'"
    and h: "heap st1 = (\<lambda>a. if a \<in> fst ` set cs then None else heap st a)"
    by blast
  have "(objs st1)(l := None) = (objs st)(l := None)"
    using o by (auto simp: fun_eq_iff)
  with c h show ?thesis by (simp add: destroy_def)
qed

lemma fill_and_swap_result:
  assumes snd: "sound_alloc new" and t: "list_inv st tmp []" and l: "list_inv st this []"
    and ne: "this \<noteq> tmp"
  shows "(\<exists>st'. fill_and_swap new tmp this vs st = Some (Inl (BadAlloc st')) \<and>
            throws (PushFront_each new tmp (rev vs) st) \<and>
            heap st' = heap st \<and> objs st' = (objs st)(tmp := None, this := None)) \<or>
         (\<exists>st' ds. fill_and_swap new tmp this vs st = Some (Inr st') \<and>
            map snd ds = vs \<and> list_inv st' this ds \<and>
            objs st' tmp = None \<and>
            (\<forall>l. l \<noteq> this \<longrightarrow> l \<noteq> tmp \<longrightarrow> objs st' l = objs st l) \<and>
            (\<forall>c \<in> set ds. heap st (fst c) = None) \<and>
            (\<forall>x. x \<notin> fst ` set ds \<longrightarrow> heap st' x = heap st x))"
proof -
  from PushFront_each_result [OF snd t, of "rev vs"] obtain st1 ds where
    r: "PushFront_each new tmp (rev vs) st = Inr st1 \<and> map snd ds = rev (rev vs) \<or>
        PushFront_each new tmp (rev vs) st = Inl (BadAlloc st1) \<and> new (heap st1) = None \<and>
          (\<exists>k < length (rev vs). map snd ds = rev (take k (rev vs)))"
    and inv1: "list_inv st1 tmp ds"
    and o1: "\<forall>l'. l' \<noteq> tmp \<longrightarrow> objs st1 l' = objs st l'"
    and f1: "\<forall>c \<in> set ds. heap st (fst c) = None"
    and h1: "\<forall>b. b \<notin> fst ` set ds \<longrightarrow> heap st1 b = heap st b"
    by auto
  from r show ?thesis
  proof
    assume ok: "PushFront_each new tmp (rev vs) st = Inr st1 \<and> map snd ds = rev (rev vs)"
    have l1: "list_inv st1 this []"
      using l o1 ne by (intro list_inv_frame [of st this "[]" st1]) auto
    from swap_list_inv [OF l1 inv1] obtain st2 where
      s: "swap this tmp st1 = Inr st2" and i2: "list_inv st2 this ds" "list_inv st2 tmp []"
      and h2: "heap st2 = heap st1"
      and o2: "\<forall>l. l \<noteq> this \<longrightarrow> l \<noteq> tmp \<longrightarrow> objs st2 l = objs st1 l"
      by blast
    from destroy_list_inv [OF i2(2)] obtain st3 where
      d: "destroy tmp st2 = Some (Inr st3)" and o3: "objs st3 = (objs st2)(tmp := None)"
      and h3: "heap st3 = heap st2"
      by auto
    have i3: "list_inv st3 this ds"
      using i2(1) o3 h3 ne by (intro list_inv_frame [of st2 this ds st3]) auto
    have "fill_and_swap new tmp this vs st = Some (Inr st3)"
      using ok s d by (simp add: fill_and_swap_def)
    moreover have "map snd ds = vs" using ok by simp
    moreover have "objs st3 tmp = None" using o3 by simp
    moreover have "\<forall>l. l \<noteq> this \<longrightarrow> l \<noteq> tmp \<longrightarrow> objs st3 l = objs st l"
      using o3 o2 o1 by simp
    moreover have "\<forall>x. x \<notin> fst ` set ds \<longrightarrow> heap st3 x = heap st x"
      using h3 h2 h1 by simp
    ultimately show ?thesis using i3 f1 by blast
  next
    assume bad: "PushFront_each new tmp (rev vs) st = Inl (BadAlloc st1) \<and>
          new (heap st1) = None \<and>
          (\<exists>k < length (rev vs). map snd ds = rev (take k (rev vs)))"
    from destroy_list_inv [OF inv1] obtain st2 where
      d: "destroy tmp st1 = Some (Inr st2)" and o2: "objs st2 = (objs st1)(tmp := None)"
      and h2: "heap st2 = (\<lambda>a. if a \<in> fst ` set ds then None else heap st1 a)"
      by blast
    let ?st' = "st2\<lparr>objs := (objs st2)(this := None)\<rparr>"
    have "fill_and_swap new tmp this vs st = Some (Inl (BadAlloc ?st'))"
      using bad d by (simp add: fill_and_swap_def unwind_ctor_def)
    moreover have "throws (PushFront_each new tmp (rev vs) st)"
      using bad by (simp add: throws_def)
    moreover have "heap ?st' = heap st"
      using h2 h1 f1 by (auto simp: fun_eq_iff)
    moreover have "objs ?st' = (objs st)(tmp := None, this := None)"
      using o2 o1 by (auto simp: fun_eq_iff)
    ultimately show ?thesis by blast
  qed
qed

lemma fill_vector_chain:
  assumes "path (heap st) p cs Null"
  shows "fill_vector vnew st p acc =
           (if \<forall>k < length cs. vnew (heap st) (length acc + k)
            then Some (Inr (acc @ map snd cs)) else Some (Inl (BadAlloc st)))"
  using assms
proof (induction cs arbitrary: p acc)
  case Nil
  then show ?case by (subst fill_vector.simps) (simp add: end_it_def)
next
  case (Cons c cs)
  then obtain n where n: "p = Dyn (fst c)" "heap st (fst c) = Some n" "node_value n = snd c"
    "path (heap st) (next_node n) cs Null"
    by (auto split: option.splits)
  have split: "(\<forall>k < length (c # cs). vnew (heap st) (length acc + k)) \<longleftrightarrow>
      vnew (heap st) (length acc) \<and>
      (\<forall>k < length cs. vnew (heap st) (length (acc @ [snd c]) + k))"
    by (auto simp: less_Suc_eq_0_disj)
  show ?case
  proof (cases "vnew (heap st) (length acc)")
    case True
    with Cons.IH [OF n(4), of "acc @ [snd c]"] n(1-3) split show ?thesis
      by (subst fill_vector.simps) (simp add: end_it_def node_at_def)
  next
    case False
    with n(1-3) split show ?thesis
      by (subst fill_vector.simps) (simp add: end_it_def node_at_def)
  qed
qed

lemma unwind_fresh_ctor:
  assumes fresh: "objs st this = None" "objs st tmp = None" and ne: "this \<noteq> tmp"
  shows "unwind_ctor tmp this (member_init dflt tmp (member_init dflt this st)) =
           Some (Inl (BadAlloc st))"
proof -
  let ?st1 = "member_init dflt tmp (member_init dflt this st)"
  have t1: "list_inv ?st1 tmp []" by (rule member_init_list_inv)
  from destroy_list_inv [OF t1] obtain st2 where
    d: "destroy tmp ?st1 = Some (Inr st2)" and o2: "objs st2 = (objs ?st1)(tmp := None)"
    and h2: "heap st2 = heap ?st1"
    by auto
  let ?st' = "st2\<lparr>objs := (objs st2)(this := None)\<rparr>"
  have "objs ?st' = objs st" using o2 fresh by (auto simp: member_init_fields fun_eq_iff)
  moreover have "heap ?st' = heap st" using h2 by (simp add: member_init_fields)
  ultimately have "?st' = st" by (rule state_eqI)
  with d show ?thesis by (simp add: unwind_ctor_def)
qed

lemma copy_ctor_result:
  assumes snd: "sound_alloc new" and src: "list_inv st other cs"
    and fresh: "objs st this = None" "objs st tmp = None" and ne: "this \<noteq> tmp"
  shows "copy_ctor new vnew dflt tmp this other st = Some (Inl (BadAlloc st)) \<and>
           ((\<exists>k < length cs. \<not> vnew (heap st) k) \<or>
            throws (PushFront_each new tmp (rev (map snd cs))
                      (member_init dflt tmp (member_init dflt this st)))) \<or>
         (\<exists>st' ds. copy_ctor new vnew dflt tmp this other st = Some (Inr st') \<and>
            map snd ds = map snd cs \<and> list_inv st' this ds \<and>
            (\<forall>l. l \<noteq> this \<longrightarrow> objs st' l = objs st l) \<and>
            (\<forall>c \<in> set ds. heap st (fst c) = None) \<and>
            (\<forall>x. x \<notin> fst ` set ds \<longrightarrow> heap st' x = heap st x))"
proof -
  let ?st0 = "member_init dflt this st"
  let ?st1 = "member_init dflt tmp ?st0"
  have oth: "other \<noteq> this" "other \<noteq> tmp"
    using list_inv_exists [OF src] fresh by auto
  have e0: "IsEmpty this ?st0 = Some True" "get_size this ?st0 = Some 0"
    by (simp_all add: IsEmpty_def get_size_def member_init_def)
  have src1: "list_inv ?st1 other cs"
    using src oth by (simp add: member_init_other)
  have t1: "list_inv ?st1 tmp []" by (rule member_init_list_inv)
  have l1: "list_inv ?st1 this []"
    using ne by (simp add: member_init_other member_init_list_inv)
  have h1: "heap ?st1 = heap st" by (simp add: member_init_fields)
  from src1 obtain L where L: "objs ?st1 other = Some L"
    "path (heap ?st1) (next_node (m_head L)) cs Null"
    by (auto simp: list_inv_def split: option.splits)
  then have b: "begin_it other ?st1 = Some (next_node (m_head L))"
    by (simp add: begin_it_def)
  have fv: "fill_vector vnew ?st1 (next_node (m_head L)) [] =
      (if \<forall>k < length cs. vnew (heap st) k
       then Some (Inr (map snd cs)) else Some (Inl (BadAlloc ?st1)))"
    using fill_vector_chain [OF L(2), of vnew "[]"] h1 by simp
  show ?thesis
  proof (cases "\<forall>k < length cs. vnew (heap st) k")
    case False
    with fv have "fill_vector vnew ?st1 (next_node (m_head L)) [] = Some (Inl (BadAlloc ?st1))"
      by simp
    with e0 b have "copy_ctor new vnew dflt tmp this other st = unwind_ctor tmp this ?st1"
      by (simp add: copy_ctor_def)
    with unwind_fresh_ctor [OF fresh ne, of dflt] False show ?thesis by auto
  next
    case True
    with fv have "fill_vector vnew ?st1 (next_node (m_head L)) [] = Some (Inr (map snd cs))"
      by simp
    with e0 b have unfold: "copy_ctor new vnew dflt tmp this other st =
        fill_and_swap new tmp this (map snd cs) ?st1"
      by (simp add: copy_ctor_def)
    from fill_and_swap_result [OF snd t1 l1 ne, of "map snd cs"] show ?thesis
    proof
      assume "\<exists>st'. fill_and_swap new tmp this (map snd cs) ?st1 = Some (Inl (BadAlloc st')) \<and>
              throws (PushFront_each new tmp (rev (map snd cs)) ?st1) \<and>
              heap st' = heap ?st1 \<and> objs st' = (objs ?st1)(tmp := None, this := None)"
      then obtain st' where
        f: "fill_and_swap new tmp this (map snd cs) ?st1 = Some (Inl (BadAlloc st'))"
        and t: "throws (PushFront_each new tmp (rev (map snd cs)) ?st1)"
        and h: "heap st' = heap ?st1" and o: "objs st' = (objs ?st1)(tmp := None, this := None)"
        by blast
      have "objs st' = objs st" using o fresh by (auto simp: member_init_fields fun_eq_iff)
      moreover have "heap st' = heap st" using h by (simp add: member_init_fields)
      ultimately have "st' = st" by (rule state_eqI)
      with f unfold t show ?thesis by simp
    next
      assume "\<exists>st' ds. fill_and_swap new tmp this (map snd cs) ?st1 = Some (Inr st') \<and>
              map snd ds = map snd cs \<and> list_inv st' this ds \<and>
              objs st' tmp = None \<and>
              (\<forall>l. l \<noteq> this \<longrightarrow> l \<noteq> tmp \<longrightarrow> objs st' l = objs ?st1 l) \<and>
              (\<forall>c \<in> set ds. heap ?st1 (fst c) = None) \<and>
              (\<forall>x. x \<notin> fst ` set ds \<longrightarrow> heap st' x = heap ?st1 x)"
      then obtain st' ds where f: "fill_and_swap new tmp this (map snd cs) ?st1 = Some (Inr st')"
        and m: "map snd ds = map snd cs" and i: "list_inv st' this ds"
        and ot: "objs st' tmp = None"
        and o: "\<forall>l. l \<noteq> this \<longrightarrow> l \<noteq> tmp \<longrightarrow> objs st' l = objs ?st1 l"
        and fr: "\<forall>c \<in> set ds. heap ?st1 (fst c) = None"
        and h: "\<forall>x. x \<notin> fst ` set ds \<longrightarrow> heap st' x = heap ?st1 x"
        by blast
      have "\<forall>l. l \<noteq> this \<longrightarrow> objs st' l = objs st l"
        using o ot fresh(2) by (auto simp: member_init_fields)
      moreover have "\<forall>c \<in> set ds. heap st (fst c) = None"
        using fr by (simp add: member_init_fields)
      moreover have "\<forall>x. x \<notin> fst ` set ds \<longrightarrow> heap st' x = heap st x"
        using h by (simp add: member_init_fields)
      ultimately show ?thesis using f unfold m i by auto
    qed
  qed
qed


lemma assign_result:
  assumes snd: "sound_alloc new" and tgt: "list_inv st this ts" and src: "list_inv st rhs cs"
    and ne: "this \<noteq> rhs" and disj: "fst ` set ts \<inter> fst ` set cs = {}"
    and fresh: "objs st cv = None" "objs st tmp = None" and cvt: "cv \<noteq> tmp"
  shows "assign new vnew dflt tmp cv this rhs st = Some (Inl (BadAlloc st)) \<and>
           ((\<exists>k < length cs. \<not> vnew (heap st) k) \<or>
            throws (PushFront_each new tmp (rev (map snd cs))
                      (member_init dflt tmp (member_init dflt cv st)))) \<or>
         (\<exists>st' ds. assign new vnew dflt tmp cv this rhs st = Some (Inr st') \<and>
            map snd ds = map snd cs \<and> list_inv st' this ds \<and> list_inv st' rhs cs \<and>
            (\<forall>l. l \<noteq> this \<longrightarrow> objs st' l = objs st l) \<and>
            (\<forall>c \<in> set ds. heap st (fst c) = None) \<and>
            (\<forall>x. x \<notin> fst ` set ds \<longrightarrow> x \<notin> fst ` set ts \<longrightarrow> heap st' x = heap st x) \<and>
            (\<forall>x \<in> fst ` set ts. heap st' x = None))"
proof -
  have ex: "this \<noteq> cv" "rhs \<noteq> cv"
    using list_inv_exists [OF tgt] list_inv_exists [OF src] fresh(1) by auto
  from copy_ctor_result [OF snd src fresh cvt, of vnew dflt] show ?thesis
  proof
    assume "copy_ctor new vnew dflt tmp cv rhs st = Some (Inl (BadAlloc st)) \<and>
           ((\<exists>k < length cs. \<not> vnew (heap st) k) \<or>
            throws (PushFront_each new tmp (rev (map snd cs))
                      (member_init dflt tmp (member_init dflt cv st))))"
    then show ?thesis using ne by (simp add: assign_def)
  next
    assume "\<exists>st' ds. copy_ctor new vnew dflt tmp cv rhs st = Some (Inr st') \<and>
            map snd ds = map snd cs \<and> list_inv st' cv ds \<and>
            (\<forall>l. l \<noteq> cv \<longrightarrow> objs st' l = objs st l) \<and>
            (\<forall>c \<in> set ds. heap st (fst c) = None) \<and>
            (\<forall>x. x \<notin> fst ` set ds \<longrightarrow> heap st' x = heap st x)"
    then obtain st1 ds where c: "copy_ctor new vnew dflt tmp cv rhs st = Some (Inr st1)"
      and m: "map snd ds = map snd cs" and i1: "list_inv st1 cv ds"
      and o1: "\<forall>l. l \<noteq> cv \<longrightarrow> objs st1 l = objs st l"
      and fr: "\<forall>c \<in> set ds. heap st (fst c) = None"
      and h1: "\<forall>x. x \<notin> fst ` set ds \<longrightarrow> heap st1 x = heap st x"
      by blast
    have ts_ds: "\<forall>x \<in> fst ` set ts. x \<notin> fst ` set ds"
      using list_inv_dom [OF tgt] fr by force
    have cs_ds: "\<forall>x \<in> fst ` set cs. x \<notin> fst ` set ds"
      using list_inv_dom [OF src] fr by force
    have "\<forall>a \<in> fst ` set ts. heap st1 a = heap st a"
      using ts_ds h1 by blast
    moreover have "objs st1 this = objs st this" using o1 ex(1) by simp
    ultimately have t1: "list_inv st1 this ts"
      using tgt by (intro list_inv_frame [of st this ts st1]) auto
    from swap_list_inv [OF t1 i1] obtain st2 where
      s: "swap this cv st1 = Inr st2" and i2: "list_inv st2 this ds" "list_inv st2 cv ts"
      and h2: "heap st2 = heap st1"
      and o2: "\<forall>l. l \<noteq> this \<longrightarrow> l \<noteq> cv \<longrightarrow> objs st2 l = objs st1 l"
      by blast
    from destroy_list_inv [OF i2(2)] obtain st3 where
      d: "destroy cv st2 = Some (Inr st3)" and o3: "objs st3 = (objs st2)(cv := None)"
      and h3: "heap st3 = (\<lambda>a. if a \<in> fst ` set ts then None else heap st2 a)"
      by blast
    have r: "assign new vnew dflt tmp cv this rhs st = Some (Inr st3)"
      using ne c s d by (simp add: assign_def)
    have "\<forall>a \<in> fst ` set ds. heap st3 a = heap st2 a"
    proof
      fix a assume "a \<in> fst ` set ds"
      with ts_ds have "a \<notin> fst ` set ts" by blast
      then show "heap st3 a = heap st2 a" using h3 by simp
    qed
    moreover have "objs st3 this = objs st2 this" using o3 ex(1) by simp
    ultimately have i3: "list_inv st3 this ds"
      using i2(1) by (intro list_inv_frame [of st2 this ds st3]) auto
    have "\<forall>a \<in> fst ` set cs. heap st3 a = heap st a"
    proof
      fix a assume a: "a \<in> fst ` set cs"
      then have "a \<notin> fst ` set ts" using disj by blast
      moreover have "a \<notin> fst ` set ds" using a cs_ds by blast
      ultimately show "heap st3 a = heap st a" using h3 h2 h1 by simp
    qed
    moreover have "objs st3 rhs = objs st rhs" using o3 o2 o1 ex(2) ne by simp
    ultimately have r3: "list_inv st3 rhs cs"
      using src by (intro list_inv_frame [of st rhs cs st3]) auto
    have oall: "\<forall>l. l \<noteq> this \<longrightarrow> objs st3 l = objs st l"
      using o3 o2 o1 fresh(1) by simp
    have hfr: "\<forall>x. x \<notin> fst ` set ds \<longrightarrow> x \<notin> fst ` set ts \<longrightarrow> heap st3 x = heap st x"
      using h3 h2 h1 by simp
    have gone: "\<forall>x \<in> fst ` set ts. heap st3 x = None" using h3 by simp
    from r m i3 r3 oall fr hfr gone show ?thesis by blast
  qed
qed

lemma assign_self: "assign new vnew dflt tmp cv l l st = Some (Inr st)"
  by (simp add: assign_def)




lemma fresh_disjoint:
  assumes "list_inv st l cs" and "\<forall>c \<in> set ds. heap st (fst c) = None"
  shows "fst ` set ds \<inter> fst ` set cs = {}" and "\<forall>x \<in> fst ` set cs. x \<notin> fst ` set ds"
  using list_inv_dom [OF assms(1)] assms(2) by force+




section \<open>Counting the nodes of a chain\<close>

lemma advance_path:
  assumes "path (heap st) p cs Null"
  shows "advance st i p =
           (if i < length cs then Some (Dyn (fst (cs ! i)))
            else if i = length cs then Some Null else None)"
  using assms
proof (induction cs arbitrary: p i)
  case Nil
  then show ?case by (cases i) (simp_all add: node_at_def)
next
  case (Cons c cs)
  then obtain n where n: "p = Dyn (fst c)" "heap st (fst c) = Some n"
    "path (heap st) (next_node n) cs Null"
    by (auto split: option.splits)
  show ?case
  proof (cases i)
    case 0
    with n(1) show ?thesis by simp
  next
    case (Suc k)
    with n(1,2) Cons.IH [OF n(3), of k] show ?thesis by (simp add: node_at_def)
  qed
qed

lemma list_inv_counted:
  assumes "list_inv st l cs"
  shows "counted st l"
proof -
  from assms obtain L where L: "objs st l = Some L"
    and p: "path (heap st) (next_node (m_head L)) cs Null"
    and sz: "unat (m_size L) = length cs"
    by (rule list_inv_parts)
  let ?b = "next_node (m_head L)"
  note adv = advance_path [OF p]
  have dist: "distinct (map fst cs)" by (rule chain_distinct [OF p])
  have "nodes_after st (before_begin l) = {a. \<exists>n. advance st n ?b = Some (Dyn a)}"
    using L by (simp add: nodes_after_def before_begin_def node_at_def)
  also have "\<dots> = set (map fst cs)"
  proof (intro set_eqI iffI)
    fix a assume "a \<in> {a. \<exists>n. advance st n ?b = Some (Dyn a)}"
    then obtain n where "advance st n ?b = Some (Dyn a)" by blast
    then have "n < length cs" "a = map fst cs ! n"
      by (auto simp: adv split: if_splits)
    then show "a \<in> set (map fst cs)" by (metis length_map nth_mem)
  next
    fix a assume "a \<in> set (map fst cs)"
    then obtain i where "i < length cs" "map fst cs ! i = a"
      by (auto simp: in_set_conv_nth)
    then have "advance st i ?b = Some (Dyn a)" by (simp add: adv)
    then show "a \<in> {a. \<exists>n. advance st n ?b = Some (Dyn a)}" by blast
  qed
  finally have na: "nodes_after st (before_begin l) = set (map fst cs)" .
  have c: "card (nodes_after st (before_begin l)) = length cs"
    using na distinct_card [OF dist] by simp
  have f: "finite (nodes_after st (before_begin l))" using na by simp
  have e: "advance st (length cs) ?b = Some end_it" by (simp add: adv end_it_def)
  have e': "advance st (Suc (length cs)) (before_begin l) = Some end_it"
    using L e by (simp add: before_begin_def node_at_def)
  have v: "\<forall>i < length cs. \<exists>a. advance st i ?b = Some (Dyn a)" by (simp add: adv)
  have d: "\<forall>i j. i < j \<longrightarrow> j \<le> length cs \<longrightarrow> advance st i ?b \<noteq> advance st j ?b"
  proof (intro allI impI)
    fix i j :: nat assume ij: "i < j" "j \<le> length cs"
    show "advance st i ?b \<noteq> advance st j ?b"
    proof (cases "j = length cs")
      case True
      with ij show ?thesis by (simp add: adv)
    next
      case False
      with ij have "i < length cs" "j < length cs" "i \<noteq> j" by simp_all
      with dist have "map fst cs ! i \<noteq> map fst cs ! j"
        using nth_eq_iff_index_eq [of "map fst cs" i j] by simp
      with \<open>i < length cs\<close> \<open>j < length cs\<close> show ?thesis by (simp add: adv)
    qed
  qed
  show ?thesis
    unfolding counted_def
    using L sz c f e e' v d
    by (simp add: GetSize_def get_size_def begin_it_def del: advance.simps)
qed

section \<open>Every call keeps the store consistent\<close>

lemma store_inv_existsD:
  assumes "store_inv st" and "objs st l \<noteq> None"
  shows "\<exists>cs. list_inv st l cs"
proof -
  from assms(1) have "\<forall>l. objs st l \<noteq> None \<longrightarrow> (\<exists>cs. list_inv st l cs)"
    unfolding store_inv_def by (rule conjunct1)
  then have "objs st l \<noteq> None \<longrightarrow> (\<exists>cs. list_inv st l cs)" by (rule spec)
  with assms(2) show ?thesis by (rule rev_mp)
qed

lemma store_inv_disjointD:
  assumes "store_inv st" and "l \<noteq> l'" and "list_inv st l cs" and "list_inv st l' cs'"
  shows "fst ` set cs \<inter> fst ` set cs' = {}"
proof -
  from assms(1) have "\<forall>l l' cs cs'. l \<noteq> l' \<longrightarrow> list_inv st l cs \<longrightarrow> list_inv st l' cs' \<longrightarrow>
         fst ` set cs \<inter> fst ` set cs' = {}"
    unfolding store_inv_def by (rule conjunct2)
  then have "l \<noteq> l' \<longrightarrow> list_inv st l cs \<longrightarrow> list_inv st l' cs' \<longrightarrow>
         fst ` set cs \<inter> fst ` set cs' = {}"
    by (elim allE [of _ l] allE [of _ l'] allE [of _ cs] allE [of _ cs'])
  with assms(2-4) show ?thesis by blast
qed

lemma store_inv_no_lists: "store_inv no_lists"
  by (simp add: store_inv_def no_lists_def list_inv_def)

lemma store_inv_update:
  assumes w: "store_inv st"
    and own: "\<forall>l'. l' \<noteq> l \<longrightarrow> objs st' l' = objs st l'"
    and new: "objs st' l = None \<or> list_inv st' l cs'"
    and keep: "\<forall>l' ds. l' \<noteq> l \<longrightarrow> list_inv st l' ds \<longrightarrow>
                 (\<forall>x \<in> fst ` set ds. heap st' x = heap st x)"
    and apart: "\<forall>l' ds. l' \<noteq> l \<longrightarrow> list_inv st l' ds \<longrightarrow> fst ` set cs' \<inter> fst ` set ds = {}"
  shows "store_inv st'"
proof -
  have carry: "list_inv st' l' ds" if "l' \<noteq> l" "list_inv st l' ds" for l' ds
    using that own keep by (intro list_inv_frame [of st l' ds st']) auto
  have orig: "list_inv st l' ds" if "l' \<noteq> l" "list_inv st' l' ds" for l' ds
  proof -
    from that(2) have "objs st' l' \<noteq> None" by (rule list_inv_exists)
    with own that(1) have "objs st l' \<noteq> None" by simp
    with w obtain es where es: "list_inv st l' es" by (auto dest: store_inv_existsD)
    from carry [OF that(1) es] that(2) have "ds = es" by (auto dest: list_inv_unique)
    with es show ?thesis by simp
  qed
  have mine: "ds = cs'" if "list_inv st' l ds" for ds
  proof -
    from that have "objs st' l \<noteq> None" by (rule list_inv_exists)
    with new have "list_inv st' l cs'" by simp
    with that show ?thesis by (auto dest: list_inv_unique)
  qed
  have ex: "\<exists>cs. list_inv st' l' cs" if "objs st' l' \<noteq> None" for l'
  proof (cases "l' = l")
    case True
    with that new show ?thesis by auto
  next
    case False
    with that own have "objs st l' \<noteq> None" by simp
    with w obtain es where "list_inv st l' es" by (auto dest: store_inv_existsD)
    from carry [OF False this] show ?thesis by blast
  qed
  have dj: "fst ` set c1 \<inter> fst ` set c2 = {}"
    if "l1 \<noteq> l2" "list_inv st' l1 c1" "list_inv st' l2 c2" for l1 l2 c1 c2
  proof (cases "l1 = l")
    case True
    with that have "l2 \<noteq> l" by simp
    have "list_inv st l2 c2" by (rule orig [OF \<open>l2 \<noteq> l\<close> that(3)])
    with apart \<open>l2 \<noteq> l\<close> have "fst ` set cs' \<inter> fst ` set c2 = {}" by blast
    moreover have "c1 = cs'" using mine that(2) True by simp
    ultimately show ?thesis by simp
  next
    case l1: False
    show ?thesis
    proof (cases "l2 = l")
      case True
      have "list_inv st l1 c1" by (rule orig [OF l1 that(2)])
      with apart l1 have "fst ` set cs' \<inter> fst ` set c1 = {}" by blast
      moreover have "c2 = cs'" using mine that(3) True by simp
      ultimately show ?thesis by blast
    next
      case False
      show ?thesis
        by (rule store_inv_disjointD [OF w that(1) orig [OF l1 that(2)] orig [OF False that(3)]])
    qed
  qed
  show ?thesis unfolding store_inv_def using ex dj by blast
qed

lemma store_inv_mutate:
  assumes w: "store_inv st" and old: "list_inv st l cs" and new: "list_inv st' l cs'"
    and own: "\<forall>l'. l' \<noteq> l \<longrightarrow> objs st' l' = objs st l'"
    and keep: "\<forall>x. x \<notin> fst ` set cs \<longrightarrow> heap st x \<noteq> None \<longrightarrow> heap st' x = heap st x"
    and made: "\<forall>x \<in> fst ` set cs'. x \<in> fst ` set cs \<or> heap st x = None"
  shows "store_inv st'"
proof -
  have outside: "x \<notin> fst ` set cs \<and> heap st x \<noteq> None"
    if "l' \<noteq> l" "list_inv st l' ds" "x \<in> fst ` set ds" for l' ds x
  proof
    have "fst ` set ds \<inter> fst ` set cs = {}"
      by (rule store_inv_disjointD [OF w that(1) that(2) old])
    with that(3) show "x \<notin> fst ` set cs" by (simp add: disjoint_iff)
    show "heap st x \<noteq> None" by (rule list_inv_dom [OF that(2,3)])
  qed
  have a: "objs st' l = None \<or> list_inv st' l cs'" using new by (rule disjI2)
  have b: "\<forall>l' ds. l' \<noteq> l \<longrightarrow> list_inv st l' ds \<longrightarrow>
      (\<forall>x \<in> fst ` set ds. heap st' x = heap st x)"
  proof (intro allI impI ballI)
    fix l' ds x assume h: "l' \<noteq> l" "list_inv st l' ds" "x \<in> fst ` set ds"
    from outside [OF h] keep show "heap st' x = heap st x" by simp
  qed
  have c: "\<forall>l' ds. l' \<noteq> l \<longrightarrow> list_inv st l' ds \<longrightarrow> fst ` set cs' \<inter> fst ` set ds = {}"
  proof (intro allI impI)
    fix l' ds assume h: "l' \<noteq> l" "list_inv st l' ds"
    have "x \<notin> fst ` set ds" if x: "x \<in> fst ` set cs'" for x
    proof
      assume xd: "x \<in> fst ` set ds"
      from outside [OF h xd] have o: "x \<notin> fst ` set cs" "heap st x \<noteq> None" by simp_all
      from made x have "x \<in> fst ` set cs \<or> heap st x = None" by (rule bspec)
      with o show False by simp
    qed
    then show "fst ` set cs' \<inter> fst ` set ds = {}" by (simp add: disjoint_iff)
  qed
  show ?thesis by (rule store_inv_update [OF w own a b c])
qed

lemma store_inv_add:
  assumes w: "store_inv st" and new: "list_inv st' l ds"
    and own: "\<forall>l'. l' \<noteq> l \<longrightarrow> objs st' l' = objs st l'"
    and fresh: "\<forall>c \<in> set ds. heap st (fst c) = None"
    and keep: "\<forall>x. x \<notin> fst ` set ds \<longrightarrow> heap st' x = heap st x"
  shows "store_inv st'"
proof -
  have a: "objs st' l = None \<or> list_inv st' l ds" using new by (rule disjI2)
  have b: "\<forall>l' es. l' \<noteq> l \<longrightarrow> list_inv st l' es \<longrightarrow>
      (\<forall>x \<in> fst ` set es. heap st' x = heap st x)"
  proof (intro allI impI ballI)
    fix l' es x assume h: "l' \<noteq> l" "list_inv st l' es" "x \<in> fst ` set es"
    from fresh_disjoint(2) [OF h(2) fresh] h(3) have "x \<notin> fst ` set ds" by (rule bspec)
    with keep show "heap st' x = heap st x" by simp
  qed
  have c: "\<forall>l' es. l' \<noteq> l \<longrightarrow> list_inv st l' es \<longrightarrow> fst ` set ds \<inter> fst ` set es = {}"
  proof (intro allI impI)
    fix l' es assume h: "l' \<noteq> l" "list_inv st l' es"
    show "fst ` set ds \<inter> fst ` set es = {}" by (rule fresh_disjoint(1) [OF h(2) fresh])
  qed
  show ?thesis by (rule store_inv_update [OF w own a b c])
qed

lemma store_inv_remove:
  assumes "store_inv st"
  shows "store_inv (st\<lparr>objs := (objs st)(l := None)\<rparr>)"
proof -
  let ?st' = "st\<lparr>objs := (objs st)(l := None)\<rparr>"
  have own: "\<forall>l'. l' \<noteq> l \<longrightarrow> objs ?st' l' = objs st l'" by simp
  have a: "objs ?st' l = None \<or> list_inv ?st' l []" by simp
  have b: "\<forall>l' ds. l' \<noteq> l \<longrightarrow> list_inv st l' ds \<longrightarrow>
      (\<forall>x \<in> fst ` set ds. heap ?st' x = heap st x)" by simp
  have c: "\<forall>l' ds. l' \<noteq> l \<longrightarrow> list_inv st l' ds \<longrightarrow> fst ` set [] \<inter> fst ` set ds = {}"
    by simp
  show ?thesis by (rule store_inv_update [OF assms own a b c])
qed

lemma store_inv_swap:
  assumes w: "store_inv st" and a: "objs st a \<noteq> None" and b: "objs st b \<noteq> None"
  shows "\<exists>st'. swap a b st = Inr st' \<and> store_inv st'"
proof -
  from w a obtain cs where cs: "list_inv st a cs" by (auto dest: store_inv_existsD)
  from w b obtain ds where ds: "list_inv st b ds" by (auto dest: store_inv_existsD)
  from swap_list_inv [OF cs ds] obtain st' where
    s: "swap a b st = Inr st'" and ia: "list_inv st' a ds" and ib: "list_inv st' b cs"
    and h: "heap st' = heap st"
    and o: "\<forall>l. l \<noteq> a \<longrightarrow> l \<noteq> b \<longrightarrow> objs st' l = objs st l"
    by blast
  let ?p = "\<lambda>l. if l = a then b else if l = b then a else l"
  have iff: "list_inv st' l es \<longleftrightarrow> list_inv st (?p l) es" for l es
  proof (cases "l = a \<or> l = b")
    case True
    then show ?thesis using ia ib cs ds by (auto dest: list_inv_unique)
  next
    case False
    then have "objs st' l = objs st l" using o by simp
    with h have "list_inv st' l es = list_inv st l es"
      by (simp add: list_inv_def split: option.splits)
    with False show ?thesis by simp
  qed
  have inj: "l1 \<noteq> l2 \<Longrightarrow> ?p l1 \<noteq> ?p l2" for l1 l2 by (auto split: if_splits)
  have ex: "\<exists>es. list_inv st' l es" if "objs st' l \<noteq> None" for l
  proof (cases "l = a \<or> l = b")
    case True
    with ia ib show ?thesis by auto
  next
    case False
    with that o have "objs st l \<noteq> None" by simp
    with w obtain es where "list_inv st l es" by (auto dest: store_inv_existsD)
    with False iff [of l es] show ?thesis by auto
  qed
  have dj: "fst ` set c1 \<inter> fst ` set c2 = {}"
    if "l1 \<noteq> l2" "list_inv st' l1 c1" "list_inv st' l2 c2" for l1 l2 c1 c2
  proof -
    from that(2,3) have "list_inv st (?p l1) c1" "list_inv st (?p l2) c2"
      by (simp_all only: iff)
    with store_inv_disjointD [OF w inj [OF that(1)]] show ?thesis by blast
  qed
  have "store_inv st'" unfolding store_inv_def using ex dj by blast
  with s show ?thesis by blast
qed

lemma PopFront_list_inv:
  assumes inv: "list_inv st l cs"
  shows "\<exists>st'. PopFront l st = Inr st' \<and> list_inv st' l (tl cs) \<and>
           (\<forall>l'. l' \<noteq> l \<longrightarrow> objs st' l' = objs st l') \<and>
           (\<forall>x. x \<notin> fst ` set cs \<longrightarrow> heap st' x = heap st x)"
proof -
  from inv obtain L where L: "objs st l = Some L"
    and p: "path (heap st) (next_node (m_head L)) cs Null"
    and sz: "unat (m_size L) = length cs"
    and nz: "\<forall>d \<in> set cs. fst d \<noteq> 0"
    by (rule list_inv_parts)
  show ?thesis
  proof (cases cs)
    case Nil
    with p have "next_node (m_head L) = Null" by simp
    from PopFront_empty [OF L this] inv Nil show ?thesis by simp
  next
    case (Cons c post)
    with p obtain nc where nc: "next_node (m_head L) = Dyn (fst c)"
      "heap st (fst c) = Some nc" "path (heap st) (next_node nc) post Null"
      by (auto split: option.splits)
    from PopFront_effect [OF L nc(1,2)] obtain st' where
      r: "PopFront l st = Inr st'"
      and o: "objs st' = (objs st)(l \<mapsto> L\<lparr>m_head := (m_head L)\<lparr>next_node := next_node nc\<rparr>,
                                         m_size := m_size L - 1\<rparr>)"
      and h: "heap st' = (heap st)(fst c := None)"
      by blast
    have "fst c \<notin> fst ` set post" by (rule chain_head_fresh [OF nc(2,3)])
    then have p': "path (heap st') (next_node nc) post Null"
      using nc(3) h by (simp add: path_upd_other)
    from sz Cons have sz': "unat (m_size L - 1) = length post"
      by (intro unat_dec_size) simp
    have "list_inv st' l post"
      using o p' sz' nz Cons
      by (intro list_invI [where L = "L\<lparr>m_head := (m_head L)\<lparr>next_node := next_node nc\<rparr>,
                                         m_size := m_size L - 1\<rparr>"]) auto
    then show ?thesis using r o h Cons by auto
  qed
qed

lemma init_ctor_result:
  assumes snd: "sound_alloc new"
    and fresh: "objs st this = None" "objs st tmp = None" and ne: "this \<noteq> tmp"
  shows "init_ctor new dflt tmp this vs st = Some (Inl (BadAlloc st)) \<or>
         (\<exists>st' ds. init_ctor new dflt tmp this vs st = Some (Inr st') \<and>
            map snd ds = vs \<and> list_inv st' this ds \<and>
            (\<forall>l. l \<noteq> this \<longrightarrow> objs st' l = objs st l) \<and>
            (\<forall>c \<in> set ds. heap st (fst c) = None) \<and>
            (\<forall>x. x \<notin> fst ` set ds \<longrightarrow> heap st' x = heap st x))"
proof -
  let ?st0 = "member_init dflt this st"
  let ?st1 = "member_init dflt tmp ?st0"
  have e0: "IsEmpty this ?st0 = Some True" "get_size this ?st0 = Some 0"
    by (simp_all add: IsEmpty_def get_size_def member_init_def)
  have t1: "list_inv ?st1 tmp []" by (rule member_init_list_inv)
  have l1: "list_inv ?st1 this []"
    using ne by (simp add: member_init_other member_init_list_inv)
  have unfold: "init_ctor new dflt tmp this vs st = fill_and_swap new tmp this vs ?st1"
    using e0 by (simp add: init_ctor_def)
  from fill_and_swap_result [OF snd t1 l1 ne, of vs] show ?thesis
  proof
    assume "\<exists>st'. fill_and_swap new tmp this vs ?st1 = Some (Inl (BadAlloc st')) \<and>
            throws (PushFront_each new tmp (rev vs) ?st1) \<and>
            heap st' = heap ?st1 \<and> objs st' = (objs ?st1)(tmp := None, this := None)"
    then obtain st' where f: "fill_and_swap new tmp this vs ?st1 = Some (Inl (BadAlloc st'))"
      and h: "heap st' = heap ?st1" and o: "objs st' = (objs ?st1)(tmp := None, this := None)"
      by blast
    have "objs st' = objs st" using o fresh by (auto simp: member_init_fields fun_eq_iff)
    moreover have "heap st' = heap st" using h by (simp add: member_init_fields)
    ultimately have "st' = st" by (rule state_eqI)
    with f unfold show ?thesis by simp
  next
    assume "\<exists>st' ds. fill_and_swap new tmp this vs ?st1 = Some (Inr st') \<and>
            map snd ds = vs \<and> list_inv st' this ds \<and>
            objs st' tmp = None \<and>
            (\<forall>l. l \<noteq> this \<longrightarrow> l \<noteq> tmp \<longrightarrow> objs st' l = objs ?st1 l) \<and>
            (\<forall>c \<in> set ds. heap ?st1 (fst c) = None) \<and>
            (\<forall>x. x \<notin> fst ` set ds \<longrightarrow> heap st' x = heap ?st1 x)"
    then obtain st' ds where f: "fill_and_swap new tmp this vs ?st1 = Some (Inr st')"
      and m: "map snd ds = vs" and i: "list_inv st' this ds"
      and ot: "objs st' tmp = None"
      and o: "\<forall>l. l \<noteq> this \<longrightarrow> l \<noteq> tmp \<longrightarrow> objs st' l = objs ?st1 l"
      and fr: "\<forall>c \<in> set ds. heap ?st1 (fst c) = None"
      and h: "\<forall>x. x \<notin> fst ` set ds \<longrightarrow> heap st' x = heap ?st1 x"
      by blast
    have "\<forall>l. l \<noteq> this \<longrightarrow> objs st' l = objs st l"
      using o ot fresh(2) by (auto simp: member_init_fields)
    moreover have "\<forall>c \<in> set ds. heap st (fst c) = None"
      using fr by (simp add: member_init_fields)
    moreover have "\<forall>x. x \<notin> fst ` set ds \<longrightarrow> heap st' x = heap st x"
      using h by (simp add: member_init_fields)
    ultimately show ?thesis using f unfold m i by auto
  qed
qed

lemma run_Construct:
  assumes "store_inv st"
  shows "store_inv (member_init dflt l st)"
proof (rule store_inv_add [OF assms, of _ l "[]"])
  show "list_inv (member_init dflt l st) l []" by (rule member_init_list_inv)
qed (simp_all add: member_init_fields)

lemma run_PushFront:
  assumes snd: "sound_alloc new" and w: "store_inv st" and ex: "objs st l \<noteq> None"
  shows "PushFront new l v st = Inl (BadAlloc st) \<or>
         (\<exists>st'. PushFront new l v st = Inr st' \<and> store_inv st')"
proof (cases "new (heap st)")
  case None
  then show ?thesis by (simp add: PushFront_throws)
next
  case (Some a)
  with snd have fresh: "heap st a = None" "a \<noteq> 0" by (auto simp: sound_alloc_def)
  from store_inv_existsD [OF w ex] obtain cs where cs: "list_inv st l cs" by blast
  from PushFront_list_inv [of st l cs new a v, OF cs Some fresh] obtain st' where
    r: "PushFront new l v st = Inr st'" and i: "list_inv st' l ((a, v) # cs)"
    and o: "\<forall>l'. l' \<noteq> l \<longrightarrow> objs st' l' = objs st l'"
    and h: "heap st' = (heap st)(a \<mapsto> \<lparr>node_value = v, next_node =
              (case cs of [] \<Rightarrow> Null | c # _ \<Rightarrow> Dyn (fst c))\<rparr>)"
    by blast
  have k: "\<forall>x. x \<notin> fst ` set cs \<longrightarrow> heap st x \<noteq> None \<longrightarrow> heap st' x = heap st x"
    using h fresh(1) by auto
  have m: "\<forall>x \<in> fst ` set ((a, v) # cs). x \<in> fst ` set cs \<or> heap st x = None"
    using fresh(1) by simp
  from store_inv_mutate [OF w cs i o k m] r show ?thesis by simp
qed

lemma run_PopFront:
  assumes w: "store_inv st" and ex: "objs st l \<noteq> None"
  shows "\<exists>st'. PopFront l st = Inr st' \<and> store_inv st'"
proof -
  from store_inv_existsD [OF w ex] obtain cs where cs: "list_inv st l cs" by blast
  from PopFront_list_inv [OF cs] obtain st' where
    r: "PopFront l st = Inr st'" and i: "list_inv st' l (tl cs)"
    and o: "\<forall>l'. l' \<noteq> l \<longrightarrow> objs st' l' = objs st l'"
    and h: "\<forall>x. x \<notin> fst ` set cs \<longrightarrow> heap st' x = heap st x"
    by blast
  have k: "\<forall>x. x \<notin> fst ` set cs \<longrightarrow> heap st x \<noteq> None \<longrightarrow> heap st' x = heap st x"
    using h by simp
  have m: "\<forall>x \<in> fst ` set (tl cs). x \<in> fst ` set cs \<or> heap st x = None"
    by (cases cs) auto
  from store_inv_mutate [OF w cs i o k m] r show ?thesis by simp
qed

lemma run_Clear:
  assumes w: "store_inv st" and ex: "objs st l \<noteq> None"
  shows "\<exists>st'. Clear l st = Some (Inr st') \<and> store_inv st' \<and> list_inv st' l []"
proof -
  from store_inv_existsD [OF w ex] obtain cs where cs: "list_inv st l cs" by blast
  from Clear_list_inv [OF cs] obtain st' where
    r: "Clear l st = Some (Inr st')" and i: "list_inv st' l []"
    and o: "\<forall>l'. l' \<noteq> l \<longrightarrow> objs st' l' = objs st l'"
    and h: "heap st' = (\<lambda>a. if a \<in> fst ` set cs then None else heap st a)"
    by blast
  have k: "\<forall>x. x \<notin> fst ` set cs \<longrightarrow> heap st x \<noteq> None \<longrightarrow> heap st' x = heap st x"
    using h by simp
  have m: "\<forall>x \<in> fst ` set []. x \<in> fst ` set cs \<or> heap st x = None" by simp
  from store_inv_mutate [OF w cs i o k m] r i show ?thesis by simp
qed

lemma run_destroy:
  assumes w: "store_inv st" and ex: "objs st l \<noteq> None"
  shows "\<exists>st'. destroy l st = Some (Inr st') \<and> store_inv st'"
proof -
  from run_Clear [OF w ex] obtain st1 where
    "Clear l st = Some (Inr st1)" "store_inv st1" by blast
  with store_inv_remove [of st1 l] show ?thesis by (simp add: destroy_def)
qed

lemma run_InsertAfter:
  assumes snd: "sound_alloc new" and w: "store_inv st"
    and cs: "list_inv st l cs" and v: "valid_pos l cs pos"
  shows "store_of (InsertAfter new l pos x st) = Inl (BadAlloc st) \<or>
         (\<exists>st'. store_of (InsertAfter new l pos x st) = Inr st' \<and> store_inv st')"
proof (cases "new (heap st)")
  case None
  then show ?thesis by (simp add: InsertAfter_throws store_of_def)
next
  case (Some a)
  with snd have fresh: "heap st a = None" "a \<noteq> 0" by (auto simp: sound_alloc_def)
  from valid_pos_split [OF v] obtain pre post where
    sp: "cs = pre @ post" "pos = pos_after l pre" by blast
  from cs sp have inv: "list_inv st l (pre @ post)" by simp
  from InsertAfter_list_inv [of st l pre post new a x, OF inv Some fresh] obtain st' where
    r: "InsertAfter new l (pos_after l pre) x st = Inr (Dyn a, st')"
    and i: "list_inv st' l (pre @ (a, x) # post)"
    and o: "\<forall>l'. l' \<noteq> l \<longrightarrow> objs st' l' = objs st l'"
    and h: "\<forall>y. y \<notin> fst ` set (pre @ post) \<longrightarrow> y \<noteq> a \<longrightarrow> heap st' y = heap st y"
    by blast
  have k: "\<forall>y. y \<notin> fst ` set (pre @ post) \<longrightarrow> heap st y \<noteq> None \<longrightarrow> heap st' y = heap st y"
    using h fresh(1) by auto
  have m: "\<forall>y \<in> fst ` set (pre @ (a, x) # post). y \<in> fst ` set (pre @ post) \<or> heap st y = None"
    using fresh(1) by auto
  from store_inv_mutate [OF w inv i o k m] r sp show ?thesis by (simp add: store_of_def)
qed

lemma run_EraseAfter:
  assumes w: "store_inv st" and cs: "list_inv st l cs"
    and v: "has_successor l cs pos \<or> cs = [] \<and> valid_pos l cs pos"
  shows "\<exists>st'. store_of (EraseAfter l pos st) = Inr st' \<and> store_inv st'"
  using v
proof
  assume "has_successor l cs pos"
  from has_successor_split [OF this] obtain pre c post where
    sp: "cs = pre @ c # post" "pos = pos_after l pre" by blast
  from cs sp have inv: "list_inv st l (pre @ c # post)" by simp
  from EraseAfter_list_inv [OF inv] obtain st' where
    r: "EraseAfter l (pos_after l pre) st = Inr (chain_start post, st')"
    and i: "list_inv st' l (pre @ post)"
    and o: "\<forall>l'. l' \<noteq> l \<longrightarrow> objs st' l' = objs st l'"
    and h: "\<forall>x. x \<notin> fst ` set (pre @ c # post) \<longrightarrow> heap st' x = heap st x"
    by blast
  have k: "\<forall>x. x \<notin> fst ` set (pre @ c # post) \<longrightarrow> heap st x \<noteq> None \<longrightarrow> heap st' x = heap st x"
    using h by simp
  have m: "\<forall>x \<in> fst ` set (pre @ post). x \<in> fst ` set (pre @ c # post) \<or> heap st x = None"
    by auto
  from store_inv_mutate [OF w inv i o k m] r sp show ?thesis by (simp add: store_of_def)
next
  assume "cs = [] \<and> valid_pos l cs pos"
  then have e: "cs = []" "valid_pos l cs pos" by blast+
  then have "pos = Sentinel l" by (simp add: valid_pos_def)
  moreover from cs e(1) have "\<exists>L. objs st l = Some L \<and> next_node (m_head L) = Null"
    by (auto simp: list_inv_def split: option.splits)
  ultimately show ?thesis using w by (auto simp: EraseAfter_empty store_of_def)
qed

lemma run_ctor_result:
  assumes w: "store_inv st"
    and r: "r = Some (Inl (BadAlloc st)) \<or>
         (\<exists>st' ds. r = Some (Inr st') \<and> map snd ds = vs \<and> list_inv st' this ds \<and>
            (\<forall>l. l \<noteq> this \<longrightarrow> objs st' l = objs st l) \<and>
            (\<forall>c \<in> set ds. heap st (fst c) = None) \<and>
            (\<forall>x. x \<notin> fst ` set ds \<longrightarrow> heap st' x = heap st x))"
  shows "\<exists>st'. (r = Some (Inr st') \<or> r = Some (Inl (BadAlloc st'))) \<and> store_inv st'"
  using r
proof
  assume "r = Some (Inl (BadAlloc st))"
  with w show ?thesis by blast
next
  assume "\<exists>st' ds. r = Some (Inr st') \<and> map snd ds = vs \<and> list_inv st' this ds \<and>
            (\<forall>l. l \<noteq> this \<longrightarrow> objs st' l = objs st l) \<and>
            (\<forall>c \<in> set ds. heap st (fst c) = None) \<and>
            (\<forall>x. x \<notin> fst ` set ds \<longrightarrow> heap st' x = heap st x)"
  then obtain st' ds where res: "r = Some (Inr st')" and i: "list_inv st' this ds"
    and o: "\<forall>l. l \<noteq> this \<longrightarrow> objs st' l = objs st l"
    and fr: "\<forall>c \<in> set ds. heap st (fst c) = None"
    and h: "\<forall>x. x \<notin> fst ` set ds \<longrightarrow> heap st' x = heap st x"
    by blast
  from store_inv_add [OF w i o fr h] res show ?thesis by blast
qed

lemma run_assign:
  assumes snd: "sound_alloc new" and w: "store_inv st"
    and ex: "objs st this \<noteq> None" "objs st rhs \<noteq> None"
    and fresh: "objs st cv = None" "objs st tmp = None" and cvt: "cv \<noteq> tmp"
  shows "\<exists>st'. (assign new vnew dflt tmp cv this rhs st = Some (Inr st') \<or>
                assign new vnew dflt tmp cv this rhs st = Some (Inl (BadAlloc st'))) \<and> store_inv st'"
proof (cases "this = rhs")
  case True
  with w show ?thesis by (auto simp: assign_self)
next
  case False
  from store_inv_existsD [OF w ex(1)] obtain ts where ts: "list_inv st this ts" by blast
  from store_inv_existsD [OF w ex(2)] obtain cs where cs: "list_inv st rhs cs" by blast
  have disj: "fst ` set ts \<inter> fst ` set cs = {}"
    by (rule store_inv_disjointD [OF w False ts cs])
  from assign_result [OF snd ts cs False disj fresh cvt, of vnew dflt] show ?thesis
  proof
    assume "assign new vnew dflt tmp cv this rhs st = Some (Inl (BadAlloc st)) \<and>
           ((\<exists>k < length cs. \<not> vnew (heap st) k) \<or>
            throws (PushFront_each new tmp (rev (map snd cs))
                      (member_init dflt tmp (member_init dflt cv st))))"
    with w show ?thesis by blast
  next
    assume "\<exists>st' ds. assign new vnew dflt tmp cv this rhs st = Some (Inr st') \<and>
            map snd ds = map snd cs \<and> list_inv st' this ds \<and> list_inv st' rhs cs \<and>
            (\<forall>l. l \<noteq> this \<longrightarrow> objs st' l = objs st l) \<and>
            (\<forall>c \<in> set ds. heap st (fst c) = None) \<and>
            (\<forall>x. x \<notin> fst ` set ds \<longrightarrow> x \<notin> fst ` set ts \<longrightarrow> heap st' x = heap st x) \<and>
            (\<forall>x \<in> fst ` set ts. heap st' x = None)"
    then obtain st' ds where res: "assign new vnew dflt tmp cv this rhs st = Some (Inr st')"
      and i: "list_inv st' this ds"
      and o: "\<forall>l. l \<noteq> this \<longrightarrow> objs st' l = objs st l"
      and fr: "\<forall>c \<in> set ds. heap st (fst c) = None"
      and h: "\<forall>x. x \<notin> fst ` set ds \<longrightarrow> x \<notin> fst ` set ts \<longrightarrow> heap st' x = heap st x"
      by blast
    have a: "objs st' this = None \<or> list_inv st' this ds" using i by (rule disjI2)
    have b: "\<forall>l' es. l' \<noteq> this \<longrightarrow> list_inv st l' es \<longrightarrow>
        (\<forall>x \<in> fst ` set es. heap st' x = heap st x)"
    proof (intro allI impI ballI)
      fix l' es x assume g: "l' \<noteq> this" "list_inv st l' es" "x \<in> fst ` set es"
      have "fst ` set es \<inter> fst ` set ts = {}"
        by (rule store_inv_disjointD [OF w g(1) g(2) ts])
      with g(3) have "x \<notin> fst ` set ts" by (simp add: disjoint_iff)
      moreover from fresh_disjoint(2) [OF g(2) fr] g(3) have "x \<notin> fst ` set ds"
        by (rule bspec)
      ultimately show "heap st' x = heap st x" using h by simp
    qed
    have c: "\<forall>l' es. l' \<noteq> this \<longrightarrow> list_inv st l' es \<longrightarrow> fst ` set ds \<inter> fst ` set es = {}"
    proof (intro allI impI)
      fix l' es assume g: "l' \<noteq> this" "list_inv st l' es"
      show "fst ` set ds \<inter> fst ` set es = {}" by (rule fresh_disjoint(1) [OF g(2) fr])
    qed
    from store_inv_update [OF w o a b c] res show ?thesis by blast
  qed
qed

lemma run_store_inv:
  assumes snd: "sound_alloc new" and w: "store_inv st" and c: "contract st call"
  shows "\<exists>st'. (run new vnew dflt call st = Some (Inr st') \<or>
                run new vnew dflt call st = Some (Inl (BadAlloc st'))) \<and> store_inv st'"
proof (cases call)
  case (Construct this)
  with run_Construct [OF w, of dflt this] show ?thesis by simp
next
  case (Construct_init tmp this vs)
  with c have f: "objs st this = None" "objs st tmp = None" "this \<noteq> tmp" by simp_all
  from run_ctor_result [OF w init_ctor_result [OF snd f, of dflt vs]] Construct_init
  show ?thesis by simp
next
  case (Construct_copy tmp this other)
  with c have f: "objs st this = None" "objs st tmp = None" "this \<noteq> tmp"
    and ex: "objs st other \<noteq> None" by simp_all
  from store_inv_existsD [OF w ex] obtain cs where cs: "list_inv st other cs" by blast
  from copy_ctor_result [OF snd cs f, of vnew dflt]
  have "copy_ctor new vnew dflt tmp this other st = Some (Inl (BadAlloc st)) \<or>
         (\<exists>st' ds. copy_ctor new vnew dflt tmp this other st = Some (Inr st') \<and>
            map snd ds = map snd cs \<and> list_inv st' this ds \<and>
            (\<forall>l. l \<noteq> this \<longrightarrow> objs st' l = objs st l) \<and>
            (\<forall>c \<in> set ds. heap st (fst c) = None) \<and>
            (\<forall>x. x \<notin> fst ` set ds \<longrightarrow> heap st' x = heap st x))"
    by blast
  from run_ctor_result [OF w this] Construct_copy show ?thesis by simp
next
  case (Assign tmp cv this rhs)
  with c have "objs st this \<noteq> None" "objs st rhs \<noteq> None"
    "objs st cv = None" "objs st tmp = None" "cv \<noteq> tmp" by simp_all
  from run_assign [OF snd w this, of vnew dflt] Assign show ?thesis by simp
next
  case (Call_PushFront this v)
  with c have "objs st this \<noteq> None" by simp
  from run_PushFront [OF snd w this, of v] w Call_PushFront show ?thesis by auto
next
  case (Call_PopFront this)
  with c have "objs st this \<noteq> None" by simp
  from run_PopFront [OF w this] Call_PopFront show ?thesis by auto
next
  case (Call_InsertAfter this pos v)
  with c obtain cs where "list_inv st this cs" "valid_pos this cs pos" by auto
  from run_InsertAfter [OF snd w this, of v] w Call_InsertAfter show ?thesis by auto
next
  case (Call_EraseAfter this pos)
  with c obtain cs where "list_inv st this cs"
    "has_successor this cs pos \<or> cs = [] \<and> valid_pos this cs pos" by auto
  from run_EraseAfter [OF w this] Call_EraseAfter show ?thesis by auto
next
  case (Call_Clear this)
  with c have "objs st this \<noteq> None" by simp
  from run_Clear [OF w this] Call_Clear show ?thesis by auto
next
  case (Call_swap this other)
  with c have "objs st this \<noteq> None" "objs st other \<noteq> None" by simp_all
  from store_inv_swap [OF w this] Call_swap show ?thesis by auto
next
  case (Call_swap_free lhs rhs)
  with c have "objs st lhs \<noteq> None" "objs st rhs \<noteq> None" by simp_all
  from store_inv_swap [OF w this] Call_swap_free show ?thesis by (auto simp: swap_free_def)
next
  case (Destruct this)
  with c have "objs st this \<noteq> None" by simp
  from run_destroy [OF w this] Destruct show ?thesis by auto
qed

lemma reachable_store_inv:
  assumes "sound_alloc new" and "reachable new vnew dflt st"
  shows "store_inv st"
  using assms(2)
proof (induction rule: reachable.induct)
  case start
  show ?case by (rule store_inv_no_lists)
next
  case (returns st c st')
  from run_store_inv [OF assms(1) returns.IH returns.hyps(2), of vnew dflt] returns.hyps(3)
  show ?case by auto
next
  case (throws st c st')
  from run_store_inv [OF assms(1) throws.IH throws.hyps(2), of vnew dflt] throws.hyps(3)
  show ?case by auto
qed

lemma store_inv_counted: "store_inv st \<Longrightarrow> objs st l \<noteq> None \<Longrightarrow> counted st l"
  by (blast dest: store_inv_existsD intro: list_inv_counted)

text \<open>
  Claim C1. In every reachable store, for every live list the recorded count is the
  number of nodes reachable by following links from the sentinel, the chain has no
  cycle, and the traversal from the first element reaches the null pointer after
  exactly \<open>count\<close> increments. Every public operation called within its contract
  (construction, \<^verbatim>\<open>PushFront\<close>, \<^verbatim>\<open>PopFront\<close>, \<^verbatim>\<open>InsertAfter\<close>, \<^verbatim>\<open>EraseAfter\<close>, \<^verbatim>\<open>Clear\<close>, \<^verbatim>\<open>swap\<close>,
  copy construction, assignment, destruction) returns, or throws \<^verbatim>\<open>std::bad_alloc\<close>, in a
  store that is reachable again and where the invariant holds again: there is no
  undefined behaviour and no loop runs forever.
\<close>

theorem invariant_of_reachable_stores:
  assumes "sound_alloc new" and "reachable new vnew dflt st"
  shows "(\<forall>l. objs st l \<noteq> None \<longrightarrow> counted st l) \<and>
         (\<forall>c. contract st c \<longrightarrow>
            (\<exists>st'. (run new vnew dflt c st = Some (Inr st') \<or>
                    run new vnew dflt c st = Some (Inl (BadAlloc st'))) \<and>
                   reachable new vnew dflt st' \<and>
                   (\<forall>l. objs st' l \<noteq> None \<longrightarrow> counted st' l)))"
proof (intro conjI allI impI)
  fix l assume "objs st l \<noteq> None"
  with reachable_store_inv [OF assms] show "counted st l" by (rule store_inv_counted)
next
  fix c assume c: "contract st c"
  from run_store_inv [OF assms(1) reachable_store_inv [OF assms] c, of vnew dflt]
  obtain st' where r: "run new vnew dflt c st = Some (Inr st') \<or>
      run new vnew dflt c st = Some (Inl (BadAlloc st'))" by blast
  then have re: "reachable new vnew dflt st'"
    using assms(2) c by (auto intro: reachable.returns reachable.throws)
  have "\<forall>l. objs st' l \<noteq> None \<longrightarrow> counted st' l"
    using reachable_store_inv [OF assms(1) re] by (blast intro: store_inv_counted)
  with r re show "\<exists>st'. (run new vnew dflt c st = Some (Inr st') \<or>
                    run new vnew dflt c st = Some (Inl (BadAlloc st'))) \<and>
                   reachable new vnew dflt st' \<and>
                   (\<forall>l. objs st' l \<noteq> None \<longrightarrow> counted st' l)" by blast
qed

lemma one_pushed_reachable: "reachable (pool_alloc [1, 2]) (\<lambda>h k. True) 0 one_pushed"
proof -
  let ?new = "pool_alloc [1, 2] :: nat allocator"
  have "reachable ?new (\<lambda>h k. True) 0 (no_lists :: nat state)" by (rule reachable.start)
  moreover have "contract (no_lists :: nat state) (Construct 0)" by (simp add: no_lists_def)
  moreover have "run ?new (\<lambda>h k. True) 0 (Construct 0) no_lists = Some (Inr (member_init 0 0 no_lists))"
    by simp
  ultimately have a: "reachable ?new (\<lambda>h k. True) 0 (member_init 0 0 no_lists)" by (rule reachable.returns)
  have b: "contract (member_init (0 :: nat) 0 no_lists) (Call_PushFront 0 5)"
    by (simp add: member_init_def)
  have c: "run ?new (\<lambda>h k. True) 0 (Call_PushFront 0 5) (member_init 0 0 no_lists) = Some (Inr one_pushed)"
    by (simp add: PushFront_def pool_alloc_def member_init_def no_lists_def one_pushed_def
        node_at_def set_next_def get_size_def set_size_def)
  from a b c show ?thesis by (rule reachable.returns)
qed

theorem invariant_of_reachable_stores_witness:
  "sound_alloc (pool_alloc [1, 2] :: nat allocator) \<and>
   reachable (pool_alloc [1, 2]) (\<lambda>h k. True) 0 one_pushed \<and>
   objs one_pushed 0 \<noteq> None \<and> counted one_pushed 0 \<and>
   contract one_pushed (Call_PopFront 0) \<and>
   (\<exists>st'. run (pool_alloc [1, 2]) (\<lambda>h k. True) 0 (Call_PopFront 0) one_pushed = Some (Inr st') \<and>
      reachable (pool_alloc [1, 2]) (\<lambda>h k. True) 0 st' \<and> counted st' 0)"
proof -
  let ?new = "pool_alloc [1, 2] :: nat allocator"
  have a: "sound_alloc ?new" by (rule sound_pool_alloc) simp
  have o: "objs one_pushed 0 \<noteq> None" by (simp add: one_pushed_def)
  then have c: "contract one_pushed (Call_PopFront 0)" by simp
  note inst = invariant_of_reachable_stores [OF a one_pushed_reachable]
  from inst o have cnt: "counted one_pushed 0" by blast
  from inst c obtain st' where
    r: "run ?new (\<lambda>h k. True) 0 (Call_PopFront 0) one_pushed = Some (Inr st') \<or>
        run ?new (\<lambda>h k. True) 0 (Call_PopFront 0) one_pushed = Some (Inl (BadAlloc st'))"
    and re: "reachable ?new (\<lambda>h k. True) 0 st'" and al: "\<forall>l. objs st' l \<noteq> None \<longrightarrow> counted st' l"
    by blast
  have p: "\<exists>s L. PopFront 0 one_pushed = Inr s \<and> objs s 0 = Some L"
    by (simp add: PopFront_def IsEmpty_def one_pushed_def node_at_def set_next_def
        delete_node_def get_size_def set_size_def)
  with r have "run ?new (\<lambda>h k. True) 0 (Call_PopFront 0) one_pushed = Some (Inr st')" "objs st' 0 \<noteq> None"
    by auto
  with re al a one_pushed_reachable o cnt c show ?thesis by blast
qed

end
